theory Spec2Isabelle
  imports Complex_Main "HOL-Library.List_Lexorder" "HOL-Library.Char_ord" "HOL-Library.Multiset"
    "HOL-Library.AList"
begin

section \<open>Time values and the UTC calendar\<close>

text \<open>
  A JavaScript \<open>Date\<close> is modelled by its time value: the integer number of
  milliseconds since 1970-01-01T00:00:00Z.  The calendar functions below follow the
  definitions of the ECMAScript language specification (\<open>Day\<close>, \<open>DayFromYear\<close>,
  \<open>YearFromTime\<close>, \<open>MonthFromTime\<close>, \<open>MakeDay\<close>, \<open>Date.UTC\<close>).  Time values are
  unbounded integers here: the invalid date (\<open>NaN\<close>) is not modelled.
  A JavaScript \<open>number\<close> that is not a time value is modelled as a real number.

  \<open>YearFromDay d\<close> computes the largest year whose first day is not after day \<open>d\<close>
  from an estimate that is off by at most one year (lemma \<open>YearFromDay_bounds\<close>).

  The local time zone of the host, which \<open>Date.prototype.getMonth\<close> reads, is a
  parameter \<open>tz\<close>: the offset of local time from UTC in milliseconds, taken as constant
  (\<open>LocalTime(t) = t + tz\<close>).
\<close>

definition msPerDay :: int where
  "msPerDay = 86400000"

definition Day :: "int \<Rightarrow> int" where
  "Day t = t div msPerDay"

definition DayFromYear :: "int \<Rightarrow> int" where
  "DayFromYear y = 365 * (y - 1970) + (y - 1969) div 4 - (y - 1901) div 100 + (y - 1601) div 400"

definition DaysInYear :: "int \<Rightarrow> int" where
  "DaysInYear y = (if y mod 4 \<noteq> 0 then 365 else if y mod 100 \<noteq> 0 then 366
                   else if y mod 400 \<noteq> 0 then 365 else 366)"

definition YearFromDay :: "int \<Rightarrow> int" where
  "YearFromDay d =
     (let y0 = 1970 + (400 * d) div 146097
      in if DayFromYear (y0 + 1) \<le> d then y0 + 1
         else if DayFromYear y0 \<le> d then y0
         else y0 - 1)"

definition InLeapYear :: "int \<Rightarrow> int" where
  "InLeapYear y = (if DaysInYear y = 366 then 1 else 0)"

definition daysBeforeMonth :: "int \<Rightarrow> int \<Rightarrow> int" where
  "daysBeforeMonth m leap =
     (if m = 0 then 0 else if m = 1 then 31 else if m = 2 then 59 + leap
      else if m = 3 then 90 + leap else if m = 4 then 120 + leap
      else if m = 5 then 151 + leap else if m = 6 then 181 + leap
      else if m = 7 then 212 + leap else if m = 8 then 243 + leap
      else if m = 9 then 273 + leap else if m = 10 then 304 + leap
      else 334 + leap)"

definition MonthFromDayWithinYear :: "int \<Rightarrow> int \<Rightarrow> int" where
  "MonthFromDayWithinYear d leap =
     (if d < 31 then 0 else if d < 59 + leap then 1 else if d < 90 + leap then 2
      else if d < 120 + leap then 3 else if d < 151 + leap then 4
      else if d < 181 + leap then 5 else if d < 212 + leap then 6
      else if d < 243 + leap then 7 else if d < 273 + leap then 8
      else if d < 304 + leap then 9 else if d < 334 + leap then 10
      else 11)"

definition YearFromTime :: "int \<Rightarrow> int" where
  "YearFromTime t = YearFromDay (Day t)"

definition MonthFromTime :: "int \<Rightarrow> int" where
  "MonthFromTime t =
     (let y = YearFromTime t
      in MonthFromDayWithinYear (Day t - DayFromYear y) (InLeapYear y))"

definition MakeDay :: "int \<Rightarrow> int \<Rightarrow> int \<Rightarrow> int" where
  "MakeDay year month dt =
     (let ym = year + month div 12; mn = month mod 12
      in DayFromYear ym + daysBeforeMonth mn (InLeapYear ym) + dt - 1)"

definition DateUTC :: "int \<Rightarrow> int \<Rightarrow> int \<Rightarrow> int" where
  "DateUTC year month dt =
     (let yr = (if 0 \<le> year \<and> year \<le> 99 then 1900 + year else year)
      in MakeDay yr month dt * msPerDay)"

definition getUTCFullYear :: "int \<Rightarrow> int" where
  "getUTCFullYear t = YearFromTime t"

definition getUTCMonth :: "int \<Rightarrow> int" where
  "getUTCMonth t = MonthFromTime t"

definition getMonth :: "int \<Rightarrow> int \<Rightarrow> int" where
  "getMonth tz t = MonthFromTime (t + tz)"

subsection \<open>Calendar arithmetic\<close>

lemma div_step: 
  fixes n k :: int
  assumes "0 < k"
  shows "(n + 1) div k = n div k + (if (n + 1) mod k = 0 then 1 else 0)"
proof -
  have a: "n = k * (n div k) + n mod k" by simp
  have b: "0 \<le> n mod k" "n mod k < k" using assms by simp_all
  show ?thesis
  proof (cases "n mod k = k - 1")
    case True
    have "n + 1 = k * (n div k) + k" using a True by linarith
    then have e: "n + 1 = k * (n div k + 1)" by (simp add: algebra_simps)
    have "(k * (n div k + 1)) div k = n div k + 1" "(k * (n div k + 1)) mod k = 0"
      using assms by simp_all
    then show ?thesis using e by simp
  next
    case False
    then have c: "n mod k + 1 < k" using b by linarith
    have e: "(n + 1) = (n mod k + 1) + k * (n div k)" using a by linarith
    have "\<And>r q::int. (r + k * q) div k = q + r div k" "\<And>r q::int. (r + k * q) mod k = r mod k"
      using assms by simp_all
    then have "((n mod k + 1) + k * (n div k)) div k = n div k + (n mod k + 1) div k"
       "((n mod k + 1) + k * (n div k)) mod k = (n mod k + 1) mod k"
      by blast+
    moreover have "(n mod k + 1) div k = 0" "(n mod k + 1) mod k = n mod k + 1"
      using b c by simp_all
    moreover have "(n + 1) div k = ((n mod k + 1) + k * (n div k)) div k"
      using e by (rule arg_cong)
    moreover have "(n + 1) mod k = ((n mod k + 1) + k * (n div k)) mod k"
      using e by (rule arg_cong)
    ultimately have "(n + 1) div k = n div k" "(n + 1) mod k = n mod k + 1"
      by linarith+
    then show ?thesis using b by simp
  qed
qed

lemma shift4: "(y - 1969 + 1) mod 4 = 0 \<longleftrightarrow> y mod 4 = (0::int)"
proof -
  have "y - 1969 + 1 = y + 4 * (-492)" by simp
  then have "(y - 1969 + 1) mod 4 = y mod 4" by (simp only: mod_mult_self2)
  then show ?thesis by simp
qed

lemma shift100: "(y - 1901 + 1) mod 100 = 0 \<longleftrightarrow> y mod 100 = (0::int)"
proof -
  have "y - 1901 + 1 = y + 100 * (-19)" by simp
  then have "(y - 1901 + 1) mod 100 = y mod 100" by (simp only: mod_mult_self2)
  then show ?thesis by simp
qed

lemma shift400: "(y - 1601 + 1) mod 400 = 0 \<longleftrightarrow> y mod 400 = (0::int)"
proof -
  have "y - 1601 + 1 = y + 400 * (-4)" by simp
  then have "(y - 1601 + 1) mod 400 = y mod 400" by (simp only: mod_mult_self2)
  then show ?thesis by simp
qed

lemma mod100_mod4: "y mod 100 = 0 \<Longrightarrow> y mod 4 = (0::int)"
proof -
  assume "y mod 100 = 0"
  then have "100 dvd y" by (simp add: dvd_eq_mod_eq_0)
  moreover have "(4::int) dvd 100" by simp
  ultimately have "4 dvd y" by (rule dvd_trans[rotated])
  then show ?thesis by (simp add: dvd_eq_mod_eq_0)
qed

lemma mod400_mod100: "y mod 400 = 0 \<Longrightarrow> y mod 100 = (0::int)"
proof -
  assume "y mod 400 = 0"
  then have "400 dvd y" by (simp add: dvd_eq_mod_eq_0)
  moreover have "(100::int) dvd 400" by simp
  ultimately have "100 dvd y" by (rule dvd_trans[rotated])
  then show ?thesis by (simp add: dvd_eq_mod_eq_0)
qed

lemma DayFromYear_Suc: "DayFromYear (y + 1) = DayFromYear y + DaysInYear y"
proof -
  have a: "(y + 1 - 1969) div 4 = (y - 1969) div 4 + (if y mod 4 = 0 then 1 else 0)"
    using div_step[of 4 "y - 1969"] shift4[of y] by (simp add: algebra_simps)
  have b: "(y + 1 - 1901) div 100 = (y - 1901) div 100 + (if y mod 100 = 0 then 1 else 0)"
    using div_step[of 100 "y - 1901"] shift100[of y] by (simp add: algebra_simps)
  have c: "(y + 1 - 1601) div 400 = (y - 1601) div 400 + (if y mod 400 = 0 then 1 else 0)"
    using div_step[of 400 "y - 1601"] shift400[of y] by (simp add: algebra_simps)
  show ?thesis
    unfolding DayFromYear_def DaysInYear_def a b c
    using mod100_mod4[of y] mod400_mod100[of y] by auto
qed

lemma DayFromYear_upper: "400 * DayFromYear (1970 + n) \<le> 146097 * n + 589"
proof -
  have "4 * ((n + 1) div 4) \<le> n + 1" by simp
  moreover have "n + 69 - 99 \<le> 100 * ((n + 69) div 100)" 
    using pos_mod_bound[of 100 "n + 69"] mult_div_mod_eq[of 100 "n + 69"] by linarith
  moreover have "400 * ((n + 369) div 400) \<le> n + 369" by simp
  moreover have "DayFromYear (1970 + n) = 365 * n + (n + 1) div 4 - (n + 69) div 100 + (n + 369) div 400"
    unfolding DayFromYear_def by (simp add: algebra_simps)
  ultimately show ?thesis by linarith
qed

lemma DayFromYear_lower: "146097 * n - 506 \<le> 400 * DayFromYear (1970 + n)"
proof -
  have "n + 1 - 3 \<le> 4 * ((n + 1) div 4)"
    using pos_mod_bound[of 4 "n + 1"] mult_div_mod_eq[of 4 "n + 1"] by linarith
  moreover have "100 * ((n + 69) div 100) \<le> n + 69" by simp
  moreover have "n + 369 - 399 \<le> 400 * ((n + 369) div 400)"
    using pos_mod_bound[of 400 "n + 369"] mult_div_mod_eq[of 400 "n + 369"] by linarith
  moreover have "DayFromYear (1970 + n) = 365 * n + (n + 1) div 4 - (n + 69) div 100 + (n + 369) div 400"
    unfolding DayFromYear_def by (simp add: algebra_simps)
  ultimately show ?thesis by linarith
qed

lemma YearFromDay_bounds: "DayFromYear (YearFromDay d) \<le> d \<and> d < DayFromYear (YearFromDay d + 1)"
proof -
  define n where "n = (400 * d) div 146097"
  have n1: "146097 * n \<le> 400 * d" unfolding n_def by simp
  define r where "r = (400 * d) mod 146097"
  have "r < 146097" unfolding r_def by simp
  moreover have "146097 * n + r = 400 * d"
    unfolding n_def r_def by (rule mult_div_mod_eq)
  ultimately have n2: "400 * d < 146097 * n + 146097" by linarith
  have lo: "DayFromYear (1970 + n - 1) \<le> d"
    using DayFromYear_upper[of "n - 1"] n1 by (simp add: algebra_simps)
  have hi: "d < DayFromYear (1970 + n + 2)"
    using DayFromYear_lower[of "n + 2"] n2 by (simp add: algebra_simps)
  have y: "YearFromDay d = (if DayFromYear (1970 + n + 1) \<le> d then 1970 + n + 1
         else if DayFromYear (1970 + n) \<le> d then 1970 + n
         else 1970 + n - 1)"
    unfolding YearFromDay_def n_def Let_def by simp
  show ?thesis using lo hi unfolding y by (auto simp: algebra_simps)
qed

lemma DaysInYear_pos: "365 \<le> DaysInYear y"
  by (simp add: DaysInYear_def)

lemma DayFromYear_mono_aux: "DayFromYear y \<le> DayFromYear (y + int k)"
proof (induction k)
  case 0
  then show ?case by simp
next
  case (Suc k)
  have "DayFromYear (y + int (Suc k)) = DayFromYear (y + int k) + DaysInYear (y + int k)"
    using DayFromYear_Suc[of "y + int k"] by (simp add: algebra_simps)
  then show ?case using Suc DaysInYear_pos[of "y + int k"] by linarith
qed

lemma DayFromYear_mono: "y \<le> y' \<Longrightarrow> DayFromYear y \<le> DayFromYear y'"
  using DayFromYear_mono_aux[of y "nat (y' - y)"] by simp

lemma daysBeforeMonth_nonneg: "0 \<le> leap \<Longrightarrow> 0 \<le> daysBeforeMonth m leap"
  by (simp add: daysBeforeMonth_def)

lemma InLeapYear_range: "0 \<le> InLeapYear y" "DaysInYear y = 365 + InLeapYear y"
  by (simp_all add: InLeapYear_def DaysInYear_def)

lemma MonthFromDayWithinYear_range: "0 \<le> MonthFromDayWithinYear d leap \<and> MonthFromDayWithinYear d leap \<le> 11"
  by (simp add: MonthFromDayWithinYear_def)

lemma MonthFromDayWithinYear_next:
  "MonthFromDayWithinYear d leap < 11 \<Longrightarrow> d < daysBeforeMonth (MonthFromDayWithinYear d leap + 1) leap"
  by (simp add: MonthFromDayWithinYear_def daysBeforeMonth_def split: if_splits)

lemma Day_bounds: "Day t * msPerDay \<le> t" "t < (Day t + 1) * msPerDay"
proof -
  define q where "q = t div msPerDay"
  define r where "r = t mod msPerDay"
  have "t = msPerDay * q + r" unfolding q_def r_def by simp
  moreover have "0 \<le> r" "r < msPerDay" unfolding r_def by (simp_all add: msPerDay_def)
  ultimately have "q * msPerDay \<le> t" "t < q * msPerDay + msPerDay"
    by (simp_all add: algebra_simps)
  then show "Day t * msPerDay \<le> t" "t < (Day t + 1) * msPerDay"
    unfolding Day_def q_def by (simp_all add: algebra_simps)
qed

lemma next_month_after: "t < DateUTC (getUTCFullYear t) (getUTCMonth t + 1) 1"
proof -
  define D where "D = Day t"
  define Y where "Y = YearFromDay D"
  define L where "L = InLeapYear Y"
  define M where "M = MonthFromDayWithinYear (D - DayFromYear Y) L"
  define yr where "yr = (if 0 \<le> Y \<and> Y \<le> 99 then 1900 + Y else Y)"
  have yb: "DayFromYear Y \<le> D" "D < DayFromYear (Y + 1)"
    using YearFromDay_bounds[of D] by (simp_all add: Y_def)
  have Mr: "0 \<le> M" "M \<le> 11" using MonthFromDayWithinYear_range[of "D - DayFromYear Y" L] by (simp_all add: M_def)
  have eq: "DateUTC (getUTCFullYear t) (getUTCMonth t + 1) 1 = MakeDay yr (M + 1) 1 * msPerDay"
    by (simp add: DateUTC_def getUTCFullYear_def getUTCMonth_def MonthFromTime_def YearFromTime_def
        Let_def D_def Y_def L_def M_def yr_def)
  have key: "D < MakeDay yr (M + 1) 1"
  proof (cases "yr = Y \<and> M < 11")
    case True
    then have "(M + 1) div 12 = 0" "(M + 1) mod 12 = M + 1" using Mr by simp_all
    then have "MakeDay yr (M + 1) 1 = DayFromYear Y + daysBeforeMonth (M + 1) L"
      using True by (simp add: MakeDay_def L_def)
    moreover have "D - DayFromYear Y < daysBeforeMonth (M + 1) L"
      using True MonthFromDayWithinYear_next[of "D - DayFromYear Y" L] by (simp add: M_def)
    ultimately show ?thesis by linarith
  next
    case False
    define ym where "ym = yr + (M + 1) div 12"
    have "Y + 1 \<le> ym"
    proof (cases "yr = Y")
      case True
      then have "M = 11" using False Mr by simp
      then show ?thesis by (simp add: ym_def True)
    next
      case False
      then have "Y + 1 \<le> yr" by (auto simp: yr_def split: if_splits)
      moreover have "0 \<le> (M + 1) div 12" using Mr by simp
      ultimately show ?thesis by (simp add: ym_def)
    qed
    then have "DayFromYear (Y + 1) \<le> DayFromYear ym" by (rule DayFromYear_mono)
    moreover have "0 \<le> daysBeforeMonth ((M + 1) mod 12) (InLeapYear ym)"
      by (rule daysBeforeMonth_nonneg) (rule InLeapYear_range)
    moreover have "MakeDay yr (M + 1) 1 = DayFromYear ym + daysBeforeMonth ((M + 1) mod 12) (InLeapYear ym)"
      by (simp add: MakeDay_def ym_def Let_def)
    ultimately show ?thesis using yb by linarith
  qed
  then have "(D + 1) * msPerDay \<le> MakeDay yr (M + 1) 1 * msPerDay"
    by (simp add: msPerDay_def)
  then show ?thesis using Day_bounds(2)[of t] unfolding eq D_def by linarith
qed


section \<open>Data model\<close>

datatype Currency = USD | EUR

record InterestRatePeriod =
  startDate :: int
  endDate :: int
  rate :: real

record AmortizationPayment =
  date :: int
  percentage :: real

text \<open>
  Field \<open>id\<close> of the source is \<open>bond_id\<close> here.  The entries of
  \<open>interestPaymentMonths\<close> are month numbers and are kept as integers.
\<close>

record Bond =
  bond_id :: string
  name :: string
  currency :: Currency
  issueDate :: int
  maxAmount :: real
  interestRatePeriods :: "InterestRatePeriod list"
  amortizationSchedule :: "AmortizationPayment list"
  interestPaymentMonths :: "int list"

text \<open>Fields \<open>date\<close> and \<open>currency\<close> of a payment are \<open>cf_date\<close> and \<open>cf_currency\<close>.\<close>

record CashFlowPayment =
  cf_date :: int
  bondId :: string
  principal :: real
  interest :: real
  total :: real
  cf_currency :: Currency

record AggregatedCashFlow =
  period :: string
  usdPrincipal :: real
  usdInterest :: real
  usdTotal :: real
  eurPrincipal :: real
  eurInterest :: real
  eurTotal :: real

text \<open>
  The two ways in which the calculator stops with an exception: the \<open>Error\<close> thrown by
  \<open>getInterestRate\<close>, and the \<open>TypeError\<close> of the runtime when a property of
  \<open>undefined\<close> is read.
\<close>

datatype error = NoApplicableRatePeriod | TypeError

section \<open>Rate resolver\<close>

text \<open>\<open>xs[xs.length - 1]\<close>: the last element, \<open>undefined\<close> (here \<open>None\<close>) on an empty array.\<close>

definition lastElement :: "'a list \<Rightarrow> 'a option" where
  "lastElement xs = (if xs = [] then None else Some (last xs))"

definition getInterestRate :: "Bond \<Rightarrow> int \<Rightarrow> error + real" where
  "getInterestRate bond d =
     (case find (\<lambda>p. d \<ge> startDate p \<and> d < endDate p) (interestRatePeriods bond) of
        Some p \<Rightarrow> Inr (rate p)
      | None \<Rightarrow>
          (case lastElement (interestRatePeriods bond) of
             Some lastPeriod \<Rightarrow>
               if d = endDate lastPeriod then Inr (rate lastPeriod)
               else Inl NoApplicableRatePeriod
           | None \<Rightarrow> Inl NoApplicableRatePeriod))"

section \<open>Principal tracker\<close>

definition getOutstandingPrincipal :: "Bond \<Rightarrow> int \<Rightarrow> real \<Rightarrow> real" where
  "getOutstandingPrincipal bond d initialPrincipal =
     (if d < issueDate bond then initialPrincipal
      else
        let totalAmortizationPercentage =
              foldl (\<lambda>sum payment. sum + percentage payment) 0
                (filter (\<lambda>payment. date payment \<le> d) (amortizationSchedule bond))
        in initialPrincipal * (1 - totalAmortizationPercentage))"

section \<open>Payment dates and cash flows of one bond\<close>

text \<open>
  \<open>allPaymentDates\<close> is a \<open>Set\<close> of ISO strings; a time value and its ISO string
  determine each other, so the set is modelled as the list of its time values in
  insertion order.
\<close>

definition setAdd :: "int \<Rightarrow> int list \<Rightarrow> int list" where
  "setAdd x xs = (if x \<in> set xs then xs else xs @ [x])"

text \<open>The \<open>while\<close> loop over the months, lines 101 to 118.\<close>

function monthLoop :: "int \<Rightarrow> Bond \<Rightarrow> int \<Rightarrow> int \<Rightarrow> int \<Rightarrow> int \<Rightarrow> int list \<Rightarrow> int list" where
  "monthLoop tz bond startD endD lastDate currentDate allPaymentDates =
     (if currentDate \<le> lastDate then
        monthLoop tz bond startD endD lastDate
          (DateUTC (getUTCFullYear currentDate) (getUTCMonth currentDate + 1) 1)
          (if getMonth tz currentDate + 1 \<in> set (interestPaymentMonths bond) then
             let paymentDate = DateUTC (getUTCFullYear currentDate) (getUTCMonth currentDate) 9
             in if paymentDate \<ge> startD \<and> paymentDate \<le> endD
                then setAdd paymentDate allPaymentDates
                else allPaymentDates
           else allPaymentDates)
      else allPaymentDates)"
  by pat_completeness auto
termination
proof (relation "measure (\<lambda>(tz, bond, startD, endD, lastDate, currentDate, allPaymentDates).
                    nat (lastDate + 1 - currentDate))")
  show "wf (measure (\<lambda>(tz, bond, startD, endD, lastDate, currentDate, allPaymentDates).
                    nat (lastDate + 1 - currentDate)))"
    by simp
next
  fix tz :: int and bond :: Bond and startD endD lastDate currentDate :: int
    and allPaymentDates :: "int list"
  assume "currentDate \<le> lastDate"
  then show "((tz, bond, startD, endD, lastDate,
                DateUTC (getUTCFullYear currentDate) (getUTCMonth currentDate + 1) 1,
                if getMonth tz currentDate + 1 \<in> set (interestPaymentMonths bond) then
                  let paymentDate = DateUTC (getUTCFullYear currentDate) (getUTCMonth currentDate) 9
                  in if paymentDate \<ge> startD \<and> paymentDate \<le> endD
                     then setAdd paymentDate allPaymentDates
                     else allPaymentDates
                else allPaymentDates),
               (tz, bond, startD, endD, lastDate, currentDate, allPaymentDates))
          \<in> measure (\<lambda>(tz, bond, startD, endD, lastDate, currentDate, allPaymentDates).
                    nat (lastDate + 1 - currentDate))"
    using next_month_after[of currentDate] by simp
qed

text \<open>The \<open>forEach\<close> over the amortization schedule, lines 121 to 125.\<close>

definition addAmortizationDates :: "Bond \<Rightarrow> int \<Rightarrow> int \<Rightarrow> int list \<Rightarrow> int list" where
  "addAmortizationDates bond startD endD allPaymentDates =
     foldl (\<lambda>acc payment.
              if date payment \<ge> startD \<and> date payment \<le> endD then setAdd (date payment) acc
              else acc)
       allPaymentDates (amortizationSchedule bond)"

text \<open>
  The scheduling part of \<open>calculateCashFlows\<close>, lines 80 to 130: the last amortization
  entry is read first, and reading \<open>.date\<close> of \<open>undefined\<close> is a \<open>TypeError\<close>.
  The window is passed explicitly, as the callers of the repository do; the default
  arguments of the source (the current time and 2050-01-01 local time) are not modelled.
  The first argument is the time zone offset of the host.
\<close>

definition sortedDates :: "int \<Rightarrow> Bond \<Rightarrow> int \<Rightarrow> int \<Rightarrow> error + int list" where
  "sortedDates tz bond startD endD =
     (let currentDate = max (issueDate bond) startD
      in case lastElement (amortizationSchedule bond) of
           None \<Rightarrow> Inl TypeError
         | Some lastAmortization \<Rightarrow>
             let lastAmortizationDate = date lastAmortization;
                 lastDate = min (lastAmortizationDate + 24 * 60 * 60 * 1000) endD;
                 interestDates = monthLoop tz bond startD endD lastDate currentDate []
             in Inr (sort (addAmortizationDates bond startD endD interestDates)))"

text \<open>The \<open>for\<close> loop over the sorted dates, lines 133 to 174.\<close>

fun paymentLoop ::
  "Bond \<Rightarrow> real \<Rightarrow> int list \<Rightarrow> real \<Rightarrow> int \<Rightarrow> CashFlowPayment list \<Rightarrow> error + CashFlowPayment list"
where
  "paymentLoop bond initialPrincipal [] outstandingPrincipal lastPaymentDate cashFlows =
     Inr cashFlows"
| "paymentLoop bond initialPrincipal (paymentDate # rest) outstandingPrincipal lastPaymentDate cashFlows =
     (let principalPayment =
            (case find (\<lambda>payment. date payment = paymentDate) (amortizationSchedule bond) of
               Some amortizationPayment \<Rightarrow> initialPrincipal * percentage amortizationPayment
             | None \<Rightarrow> 0);
          daysSinceLastPayment =
            real_of_int (paymentDate - lastPaymentDate) / real_of_int (1000 * 60 * 60 * 24)
      in case getInterestRate bond paymentDate of
           Inl e \<Rightarrow> Inl e
         | Inr interestRate \<Rightarrow>
             let interestPayment =
                   outstandingPrincipal * interestRate * (daysSinceLastPayment / 360)
             in paymentLoop bond initialPrincipal rest
                  (outstandingPrincipal - principalPayment) paymentDate
                  (cashFlows @
                   [\<lparr>cf_date = paymentDate, bondId = bond_id bond,
                     principal = principalPayment, interest = interestPayment,
                     total = principalPayment + interestPayment,
                     cf_currency = currency bond\<rparr>]))"

definition calculateCashFlows ::
  "int \<Rightarrow> Bond \<Rightarrow> real \<Rightarrow> int \<Rightarrow> int \<Rightarrow> error + CashFlowPayment list" where
  "calculateCashFlows tz bond initialPrincipal startD endD =
     (case sortedDates tz bond startD endD of
        Inl e \<Rightarrow> Inl e
      | Inr dates \<Rightarrow> paymentLoop bond initialPrincipal dates initialPrincipal (issueDate bond) [])"


section \<open>Reference data\<close>

definition createDate :: "int \<Rightarrow> int \<Rightarrow> int \<Rightarrow> int" where
  "createDate year month day = DateUTC year (month - 1) day"

definition ISSUE_DATE :: int where
  "ISSUE_DATE = createDate 2020 9 4"

definition INTEREST_PAYMENT_MONTHS :: "int list" where
  "INTEREST_PAYMENT_MONTHS = [1, 7]"

text \<open>
  \<open>Array.from({ length: n }, (_, i) => ...)\<close> is the map of the function over the
  indices \<open>0, ..., n - 1\<close>.
\<close>

definition semiannual :: "int \<Rightarrow> int \<Rightarrow> int \<Rightarrow> int \<Rightarrow> real \<Rightarrow> AmortizationPayment list" where
  "semiannual n firstYear evenMonth oddMonth pct =
     map (\<lambda>i. \<lparr>date = createDate (firstYear + i div 2) (if i mod 2 = 0 then evenMonth else oddMonth) 9,
               percentage = pct\<rparr>) [0..n - 1]"

definition USD_STEP_UP_2030 :: Bond where
  "USD_STEP_UP_2030 =
     \<lparr>bond_id = ''USD-STEP-UP-2030'',
      name = ''Bonos Globales de la Republica Argentina Amortizables en Dolares Estadounidenses Step Up 2030'',
      currency = USD, issueDate = ISSUE_DATE, maxAmount = 16830,
      interestRatePeriods =
        [\<lparr>startDate = ISSUE_DATE, endDate = createDate 2021 7 9, rate = 0.00125\<rparr>,
         \<lparr>startDate = createDate 2021 7 9, endDate = createDate 2023 7 9, rate = 0.005\<rparr>,
         \<lparr>startDate = createDate 2023 7 9, endDate = createDate 2027 7 9, rate = 0.0075\<rparr>,
         \<lparr>startDate = createDate 2027 7 9, endDate = createDate 2030 7 9, rate = 0.0175\<rparr>],
      amortizationSchedule =
        \<lparr>date = createDate 2024 7 9, percentage = 0.04\<rparr> # semiannual 12 2025 1 7 0.08,
      interestPaymentMonths = INTEREST_PAYMENT_MONTHS\<rparr>"

definition USD_STEP_UP_2035 :: Bond where
  "USD_STEP_UP_2035 =
     \<lparr>bond_id = ''USD-STEP-UP-2035'',
      name = ''Bonos Globales de la Republica Argentina Amortizables en Dolares Estadounidenses Step Up 2035'',
      currency = USD, issueDate = ISSUE_DATE, maxAmount = 25689,
      interestRatePeriods =
        [\<lparr>startDate = ISSUE_DATE, endDate = createDate 2021 7 9, rate = 0.00125\<rparr>,
         \<lparr>startDate = createDate 2021 7 9, endDate = createDate 2022 7 9, rate = 0.01125\<rparr>,
         \<lparr>startDate = createDate 2022 7 9, endDate = createDate 2023 7 9, rate = 0.015\<rparr>,
         \<lparr>startDate = createDate 2023 7 9, endDate = createDate 2024 7 9, rate = 0.03625\<rparr>,
         \<lparr>startDate = createDate 2024 7 9, endDate = createDate 2027 7 9, rate = 0.04125\<rparr>,
         \<lparr>startDate = createDate 2027 7 9, endDate = createDate 2028 7 9, rate = 0.0475\<rparr>,
         \<lparr>startDate = createDate 2028 7 9, endDate = createDate 2035 7 9, rate = 0.05\<rparr>],
      amortizationSchedule = semiannual 10 2031 1 7 0.1,
      interestPaymentMonths = INTEREST_PAYMENT_MONTHS\<rparr>"

definition USD_STEP_UP_2038 :: Bond where
  "USD_STEP_UP_2038 =
     \<lparr>bond_id = ''USD-STEP-UP-2038'',
      name = ''Bonos Globales de la Republica Argentina Amortizables en Dolares Estadounidenses Step Up 2038'',
      currency = USD, issueDate = ISSUE_DATE, maxAmount = 12414,
      interestRatePeriods =
        [\<lparr>startDate = ISSUE_DATE, endDate = createDate 2021 7 9, rate = 0.00125\<rparr>,
         \<lparr>startDate = createDate 2021 7 9, endDate = createDate 2022 7 9, rate = 0.02\<rparr>,
         \<lparr>startDate = createDate 2022 7 9, endDate = createDate 2023 7 9, rate = 0.03875\<rparr>,
         \<lparr>startDate = createDate 2023 7 9, endDate = createDate 2024 7 9, rate = 0.0425\<rparr>,
         \<lparr>startDate = createDate 2024 7 9, endDate = createDate 2038 7 9, rate = 0.05\<rparr>],
      amortizationSchedule = semiannual 22 2027 7 1 (1 / 22),
      interestPaymentMonths = INTEREST_PAYMENT_MONTHS\<rparr>"

definition USD_STEP_UP_2041 :: Bond where
  "USD_STEP_UP_2041 =
     \<lparr>bond_id = ''USD-STEP-UP-2041'',
      name = ''Bonos Globales de la Republica Argentina Amortizables en Dolares Estadounidenses Step Up 2041'',
      currency = USD, issueDate = ISSUE_DATE, maxAmount = 18633,
      interestRatePeriods =
        [\<lparr>startDate = ISSUE_DATE, endDate = createDate 2021 7 9, rate = 0.00125\<rparr>,
         \<lparr>startDate = createDate 2021 7 9, endDate = createDate 2022 7 9, rate = 0.025\<rparr>,
         \<lparr>startDate = createDate 2022 7 9, endDate = createDate 2029 7 9, rate = 0.035\<rparr>,
         \<lparr>startDate = createDate 2029 7 9, endDate = createDate 2041 7 9, rate = 0.04875\<rparr>],
      amortizationSchedule = semiannual 28 2028 1 7 (1 / 28),
      interestPaymentMonths = INTEREST_PAYMENT_MONTHS\<rparr>"

definition USD_STEP_UP_2046 :: Bond where
  "USD_STEP_UP_2046 =
     \<lparr>bond_id = ''USD-STEP-UP-2046'',
      name = ''Bonos Globales de la Republica Argentina Amortizables en Dolares Estadounidenses Step Up 2046'',
      currency = USD, issueDate = ISSUE_DATE, maxAmount = 45686,
      interestRatePeriods =
        [\<lparr>startDate = ISSUE_DATE, endDate = createDate 2021 7 9, rate = 0.00125\<rparr>,
         \<lparr>startDate = createDate 2021 7 9, endDate = createDate 2022 7 9, rate = 0.01125\<rparr>,
         \<lparr>startDate = createDate 2022 7 9, endDate = createDate 2023 7 9, rate = 0.015\<rparr>,
         \<lparr>startDate = createDate 2023 7 9, endDate = createDate 2024 7 9, rate = 0.03625\<rparr>,
         \<lparr>startDate = createDate 2024 7 9, endDate = createDate 2027 7 9, rate = 0.04125\<rparr>,
         \<lparr>startDate = createDate 2027 7 9, endDate = createDate 2028 7 9, rate = 0.04375\<rparr>,
         \<lparr>startDate = createDate 2028 7 9, endDate = createDate 2046 7 9, rate = 0.05\<rparr>],
      amortizationSchedule = semiannual 44 2025 1 7 (1 / 44),
      interestPaymentMonths = INTEREST_PAYMENT_MONTHS\<rparr>"

definition EUR_STEP_UP_2030 :: Bond where
  "EUR_STEP_UP_2030 =
     \<lparr>bond_id = ''EUR-STEP-UP-2030'',
      name = ''Bonos Globales de la Republica Argentina Amortizables en Euros Step Up 2030'',
      currency = EUR, issueDate = ISSUE_DATE, maxAmount = 3100,
      interestRatePeriods =
        [\<lparr>startDate = ISSUE_DATE, endDate = createDate 2030 7 9, rate = 0.00125\<rparr>],
      amortizationSchedule =
        \<lparr>date = createDate 2024 7 9, percentage = 0.04\<rparr> # semiannual 12 2025 1 7 0.08,
      interestPaymentMonths = INTEREST_PAYMENT_MONTHS\<rparr>"

definition BONDS :: "Bond list" where
  "BONDS = [USD_STEP_UP_2030, USD_STEP_UP_2035, USD_STEP_UP_2038, USD_STEP_UP_2041,
            USD_STEP_UP_2046, EUR_STEP_UP_2030]"

definition getAllBonds :: "Bond list" where
  "getAllBonds = BONDS"

section \<open>Cash flows of several bonds\<close>

text \<open>
  \<open>initialPrincipals\<close> is a plain object used as a dictionary from bond identifiers to
  amounts: a partial map.  \<open>initialPrincipals[bond.id] || 0\<close> is the amount, and \<open>0\<close>
  for a missing key.  The \<open>forEach\<close> over the bonds, lines 193 to 205, is
  \<open>allBondsLoop\<close>; an exception of \<open>calculateCashFlows\<close> ends it.
\<close>

fun allBondsLoop ::
  "int \<Rightarrow> (string \<rightharpoonup> real) \<Rightarrow> int \<Rightarrow> int \<Rightarrow> Bond list \<Rightarrow> CashFlowPayment list
     \<Rightarrow> error + CashFlowPayment list"
where
  "allBondsLoop tz initialPrincipals startD endD [] allCashFlows = Inr allCashFlows"
| "allBondsLoop tz initialPrincipals startD endD (bond # rest) allCashFlows =
     (let initialPrincipal =
            (case initialPrincipals (bond_id bond) of Some amount \<Rightarrow> amount | None \<Rightarrow> 0)
      in if initialPrincipal > 0 then
           (case calculateCashFlows tz bond initialPrincipal startD endD of
              Inl e \<Rightarrow> Inl e
            | Inr bondCashFlows \<Rightarrow>
                allBondsLoop tz initialPrincipals startD endD rest (allCashFlows @ bondCashFlows))
         else allBondsLoop tz initialPrincipals startD endD rest allCashFlows)"

text \<open>\<open>Array.prototype.sort\<close> is stable; \<open>sort_key\<close> is the stable insertion sort.\<close>

definition calculateAllCashFlows ::
  "int \<Rightarrow> (string \<rightharpoonup> real) \<Rightarrow> int \<Rightarrow> int \<Rightarrow> error + CashFlowPayment list" where
  "calculateAllCashFlows tz initialPrincipals startD endD =
     (case allBondsLoop tz initialPrincipals startD endD getAllBonds [] of
        Inl e \<Rightarrow> Inl e
      | Inr allCashFlows \<Rightarrow> Inr (sort_key cf_date allCashFlows))"

section \<open>Period aggregator\<close>

datatype PeriodType = Month | Quarter | HalfYear | Year

text \<open>Decimal notation of an integer, as a template literal or \<open>String\<close> prints it.\<close>

fun digitsOf :: "nat \<Rightarrow> string" where
  "digitsOf n =
     (if n < 10 then [char_of (48 + n)] else digitsOf (n div 10) @ [char_of (48 + n mod 10)])"

definition numberToString :: "int \<Rightarrow> string" where
  "numberToString i = (if i < 0 then CHR ''-'' # digitsOf (nat (- i)) else digitsOf (nat i))"

definition padStart2 :: "string \<Rightarrow> string" where
  "padStart2 s = replicate (2 - length s) CHR ''0'' @ s"

definition periodKey :: "PeriodType \<Rightarrow> int \<Rightarrow> string" where
  "periodKey periodType d =
     (case periodType of
        Month \<Rightarrow>
          numberToString (getUTCFullYear d) @ ''-'' @ padStart2 (numberToString (getUTCMonth d + 1))
      | Quarter \<Rightarrow>
          (let quarter = getUTCMonth d div 3 + 1
           in numberToString (getUTCFullYear d) @ ''-Q'' @ numberToString quarter)
      | HalfYear \<Rightarrow>
          (let halfYear = (if getUTCMonth d < 6 then ''H1'' else ''H2'')
           in numberToString (getUTCFullYear d) @ ''-'' @ halfYear)
      | Year \<Rightarrow> numberToString (getUTCFullYear d))"

definition emptyPeriod :: "string \<Rightarrow> AggregatedCashFlow" where
  "emptyPeriod p =
     \<lparr>period = p, usdPrincipal = 0, usdInterest = 0, usdTotal = 0,
      eurPrincipal = 0, eurInterest = 0, eurTotal = 0\<rparr>"

definition addToPeriod :: "CashFlowPayment \<Rightarrow> AggregatedCashFlow \<Rightarrow> AggregatedCashFlow" where
  "addToPeriod cashFlow a =
     (if cf_currency cashFlow = USD then
        a\<lparr>usdPrincipal := usdPrincipal a + principal cashFlow,
          usdInterest := usdInterest a + interest cashFlow,
          usdTotal := usdTotal a + total cashFlow\<rparr>
      else
        a\<lparr>eurPrincipal := eurPrincipal a + principal cashFlow,
          eurInterest := eurInterest a + interest cashFlow,
          eurTotal := eurTotal a + total cashFlow\<rparr>)"

text \<open>
  The object \<open>aggregated\<close> is a dictionary from period keys to entries: an association
  list with one pair for each key, in the order in which the keys were first written.
  One step of the \<open>forEach\<close>, lines 223 to 271:
\<close>

definition aggregateStep ::
  "PeriodType \<Rightarrow> (string \<times> AggregatedCashFlow) list \<Rightarrow> CashFlowPayment
     \<Rightarrow> (string \<times> AggregatedCashFlow) list" where
  "aggregateStep periodType aggregated cashFlow =
     (let p = periodKey periodType (cf_date cashFlow);
          aggregated1 = (if map_of aggregated p = None then aggregated @ [(p, emptyPeriod p)]
                         else aggregated)
      in AList.map_entry p (addToPeriod cashFlow) aggregated1)"

text \<open>
  \<open>Object.values(aggregated).sort(...)\<close>: the entries, sorted by their period key.
  The keys are pairwise different, so the result does not depend on the order in which
  \<open>Object.values\<close> lists the entries; \<open>localeCompare\<close> is taken as the lexicographic
  order of the characters.
\<close>

definition aggregateCashFlows :: "CashFlowPayment list \<Rightarrow> PeriodType \<Rightarrow> AggregatedCashFlow list" where
  "aggregateCashFlows cashFlows periodType =
     sort_key period (map snd (foldl (aggregateStep periodType) [] cashFlows))"

section \<open>Present value\<close>

text \<open>
  \<open>Math.pow(b, e)\<close> is the real power \<open>b powr e\<close> for a positive base \<open>b\<close>; for other
  bases JavaScript yields \<open>NaN\<close> or an infinity, which real numbers do not have, so the
  model speaks for \<open>1 + discountRate > 0\<close> and a nonzero exchange rate.
\<close>

definition calculatePresentValue ::
  "CashFlowPayment list \<Rightarrow> real \<Rightarrow> int \<Rightarrow> real \<Rightarrow> real" where
  "calculatePresentValue cashFlows discountRate referenceDate usdToEurRate =
     foldl (\<lambda>presentValue cashFlow.
              if cf_date cashFlow < referenceDate then presentValue
              else
                let yearsFraction =
                      real_of_int (cf_date cashFlow - referenceDate) /
                      (1000 * 60 * 60 * 24 * 365.25);
                    discountFactor = (1 + discountRate) powr (- yearsFraction);
                    cashFlowValue =
                      (if cf_currency cashFlow = EUR then total cashFlow / usdToEurRate
                       else total cashFlow)
                in presentValue + cashFlowValue * discountFactor)
       0 cashFlows"


section \<open>Properties of the rate resolver\<close>

lemma find_first_index:
  "find Q xs = Some x \<Longrightarrow> \<exists>i<length xs. xs ! i = x \<and> Q x \<and> (\<forall>j<i. \<not> Q (xs ! j))"
  by (auto simp: find_Some_iff)

lemma lastElement_Some: "xs \<noteq> [] \<Longrightarrow> lastElement xs = Some (last xs)"
  by (simp add: lastElement_def)

lemma getInterestRate_error: "getInterestRate bond d = Inl e \<Longrightarrow> e = NoApplicableRatePeriod"
  by (auto simp: getInterestRate_def lastElement_def split: option.splits if_splits)

lemma paymentLoop_error:
  "paymentLoop bond P ds out lastD acc = Inl e \<Longrightarrow> e = NoApplicableRatePeriod"
proof (induction ds arbitrary: out lastD acc)
  case Nil
  then show ?case by simp
next
  case (Cons d ds)
  then show ?case
    by (auto simp: Let_def split: sum.splits dest: getInterestRate_error)
qed

lemma paymentLoop_fails:
  "d \<in> set ds \<Longrightarrow> getInterestRate bond d = Inl e \<Longrightarrow> paymentLoop bond P ds out lastD acc = Inl NoApplicableRatePeriod"
proof (induction ds arbitrary: out lastD acc)
  case Nil
  then show ?case by simp
next
  case (Cons x ds)
  show ?case
  proof (cases "getInterestRate bond x")
    case (Inl e')
    then show ?thesis using getInterestRate_error[OF Inl] by (simp add: Let_def)
  next
    case (Inr r)
    then have "d \<in> set ds" using Cons.prems by auto
    then show ?thesis using Cons.IH Cons.prems(2) Inr by (simp add: Let_def)
  qed
qed


text \<open>
  Claim C3.  The rate resolver returns the rate of the period with
  \<open>startDate \<le> date < endDate\<close>: of the first such period in the order of the list, when
  there is one.  When there is none, it returns the rate of the last period if the date
  is that period's \<open>endDate\<close>, and fails with \<open>NoApplicableRatePeriod\<close> otherwise.  In
  particular a date equal to the \<open>startDate\<close> of the period that contains it resolves
  to that period's rate.  The failure is not replaced by a default: a scheduled date
  without a rate makes \<open>calculateCashFlows\<close> fail with the same error.
\<close>

theorem getInterestRate_selects_period:
  "((\<exists>p\<in>set (interestRatePeriods bond). startDate p \<le> d \<and> d < endDate p) \<longrightarrow>
      (\<exists>i<length (interestRatePeriods bond).
          startDate (interestRatePeriods bond ! i) \<le> d \<and> d < endDate (interestRatePeriods bond ! i) \<and>
          (\<forall>j<i. \<not> (startDate (interestRatePeriods bond ! j) \<le> d \<and> d < endDate (interestRatePeriods bond ! j))) \<and>
          getInterestRate bond d = Inr (rate (interestRatePeriods bond ! i)))) \<and>
   (\<not> (\<exists>p\<in>set (interestRatePeriods bond). startDate p \<le> d \<and> d < endDate p) \<longrightarrow>
      getInterestRate bond d =
        (if interestRatePeriods bond \<noteq> [] \<and> d = endDate (last (interestRatePeriods bond))
         then Inr (rate (last (interestRatePeriods bond)))
         else Inl NoApplicableRatePeriod)) \<and>
   (\<forall>p\<in>set (interestRatePeriods bond).
      d = startDate p \<and> startDate p < endDate p \<and>
      (\<forall>q\<in>set (interestRatePeriods bond). startDate q \<le> d \<and> d < endDate q \<longrightarrow> rate q = rate p) \<longrightarrow>
      getInterestRate bond d = Inr (rate p)) \<and>
   (\<forall>e tz P startD endD ds.
      getInterestRate bond d = Inl e \<and> sortedDates tz bond startD endD = Inr ds \<and> d \<in> set ds \<longrightarrow>
      calculateCashFlows tz bond P startD endD = Inl NoApplicableRatePeriod)"
proof -
  let ?ps = "interestRatePeriods bond"
  let ?Q = "\<lambda>p. d \<ge> startDate p \<and> d < endDate p"
  have A: "(\<exists>p\<in>set ?ps. startDate p \<le> d \<and> d < endDate p) \<longrightarrow>
      (\<exists>i<length ?ps. startDate (?ps ! i) \<le> d \<and> d < endDate (?ps ! i) \<and>
          (\<forall>j<i. \<not> (startDate (?ps ! j) \<le> d \<and> d < endDate (?ps ! j))) \<and>
          getInterestRate bond d = Inr (rate (?ps ! i)))"
  proof
    assume "\<exists>p\<in>set ?ps. startDate p \<le> d \<and> d < endDate p"
    then obtain x where x: "find ?Q ?ps = Some x"
      by (cases "find ?Q ?ps") (auto simp: find_None_iff)
    from find_first_index[OF x] obtain i where
      "i < length ?ps" "?ps ! i = x" "?Q x" "\<forall>j<i. \<not> ?Q (?ps ! j)" by blast
    moreover have "getInterestRate bond d = Inr (rate x)"
      using x by (simp add: getInterestRate_def)
    ultimately show "\<exists>i<length ?ps. startDate (?ps ! i) \<le> d \<and> d < endDate (?ps ! i) \<and>
          (\<forall>j<i. \<not> (startDate (?ps ! j) \<le> d \<and> d < endDate (?ps ! j))) \<and>
          getInterestRate bond d = Inr (rate (?ps ! i))"
      by auto
  qed
  have B: "\<not> (\<exists>p\<in>set ?ps. startDate p \<le> d \<and> d < endDate p) \<longrightarrow>
      getInterestRate bond d =
        (if ?ps \<noteq> [] \<and> d = endDate (last ?ps) then Inr (rate (last ?ps))
         else Inl NoApplicableRatePeriod)"
  proof
    assume "\<not> (\<exists>p\<in>set ?ps. startDate p \<le> d \<and> d < endDate p)"
    then have "find ?Q ?ps = None" by (auto simp: find_None_iff)
    then show "getInterestRate bond d =
        (if ?ps \<noteq> [] \<and> d = endDate (last ?ps) then Inr (rate (last ?ps))
         else Inl NoApplicableRatePeriod)"
      by (simp add: getInterestRate_def lastElement_def)
  qed
  have C: "\<forall>p\<in>set ?ps.
      d = startDate p \<and> startDate p < endDate p \<and>
      (\<forall>q\<in>set ?ps. startDate q \<le> d \<and> d < endDate q \<longrightarrow> rate q = rate p) \<longrightarrow>
      getInterestRate bond d = Inr (rate p)"
  proof (intro ballI impI)
    fix p assume p: "p \<in> set ?ps"
      and h: "d = startDate p \<and> startDate p < endDate p \<and>
         (\<forall>q\<in>set ?ps. startDate q \<le> d \<and> d < endDate q \<longrightarrow> rate q = rate p)"
    then have "\<exists>p\<in>set ?ps. startDate p \<le> d \<and> d < endDate p" by auto
    with A obtain i where i: "i < length ?ps" "startDate (?ps ! i) \<le> d \<and> d < endDate (?ps ! i)"
      "getInterestRate bond d = Inr (rate (?ps ! i))" by blast
    then have "rate (?ps ! i) = rate p" using h by auto
    then show "getInterestRate bond d = Inr (rate p)" using i by simp
  qed
  have D: "\<forall>e tz P startD endD ds.
      getInterestRate bond d = Inl e \<and> sortedDates tz bond startD endD = Inr ds \<and> d \<in> set ds \<longrightarrow>
      calculateCashFlows tz bond P startD endD = Inl NoApplicableRatePeriod"
    by (auto simp: calculateCashFlows_def intro: paymentLoop_fails)
  show ?thesis using A B C D by blast
qed

theorem getInterestRate_selects_period_witness:
  "\<lparr>startDate = createDate 2021 7 9, endDate = createDate 2023 7 9, rate = 0.005\<rparr>
     \<in> set (interestRatePeriods USD_STEP_UP_2030) \<and>
   getInterestRate USD_STEP_UP_2030 (createDate 2021 7 9) = Inr 0.005 \<and>
   getInterestRate USD_STEP_UP_2030 (createDate 2030 7 9) = Inr 0.0175 \<and>
   getInterestRate USD_STEP_UP_2030 (createDate 2030 7 10) = Inl NoApplicableRatePeriod \<and>
   calculateCashFlows 0 (USD_STEP_UP_2030\<lparr>interestRatePeriods := []\<rparr>) 1000
     (createDate 2024 1 1) (createDate 2024 12 31) = Inl NoApplicableRatePeriod"
proof -
  let ?b = "USD_STEP_UP_2030"
  let ?p = "\<lparr>startDate = createDate 2021 7 9, endDate = createDate 2023 7 9, rate = 0.005\<rparr>"
  let ?c = "USD_STEP_UP_2030\<lparr>interestRatePeriods := []\<rparr>"
  have p: "?p \<in> set (interestRatePeriods ?b)"
    by (simp add: USD_STEP_UP_2030_def)
  have hp: "createDate 2021 7 9 = startDate ?p \<and> startDate ?p < endDate ?p \<and>
      (\<forall>q\<in>set (interestRatePeriods ?b).
         startDate q \<le> createDate 2021 7 9 \<and> createDate 2021 7 9 < endDate q \<longrightarrow> rate q = rate ?p)"
    by code_simp
  have "getInterestRate ?b (createDate 2021 7 9) = Inr (rate ?p)"
    by (rule getInterestRate_selects_period[of ?b "createDate 2021 7 9",
          THEN conjunct2, THEN conjunct2, THEN conjunct1, rule_format, OF p hp])
  also have "\<dots> = Inr 0.005" by simp
  finally have c1: "getInterestRate ?b (createDate 2021 7 9) = Inr 0.005" .
  have n2: "\<not> (\<exists>p\<in>set (interestRatePeriods ?b).
      startDate p \<le> createDate 2030 7 9 \<and> createDate 2030 7 9 < endDate p)"
    by code_simp
  have e2: "interestRatePeriods ?b \<noteq> [] \<and> createDate 2030 7 9 = endDate (last (interestRatePeriods ?b))"
    by code_simp
  have r2: "rate (last (interestRatePeriods ?b)) = 0.0175"
    by code_simp
  have "getInterestRate ?b (createDate 2030 7 9) =
      (if interestRatePeriods ?b \<noteq> [] \<and> createDate 2030 7 9 = endDate (last (interestRatePeriods ?b))
       then Inr (rate (last (interestRatePeriods ?b))) else Inl NoApplicableRatePeriod)"
    by (rule getInterestRate_selects_period[of ?b "createDate 2030 7 9",
          THEN conjunct2, THEN conjunct1, rule_format, OF n2])
  also have "\<dots> = Inr (rate (last (interestRatePeriods ?b)))" by (rule if_P[OF e2])
  also have "\<dots> = Inr 0.0175" by (rule arg_cong[OF r2])
  finally have c2: "getInterestRate ?b (createDate 2030 7 9) = Inr 0.0175" .
  have n3: "\<not> (\<exists>p\<in>set (interestRatePeriods ?b).
      startDate p \<le> createDate 2030 7 10 \<and> createDate 2030 7 10 < endDate p)"
    by code_simp
  have e3: "\<not> (interestRatePeriods ?b \<noteq> [] \<and>
      createDate 2030 7 10 = endDate (last (interestRatePeriods ?b)))"
    by code_simp
  have "getInterestRate ?b (createDate 2030 7 10) =
      (if interestRatePeriods ?b \<noteq> [] \<and> createDate 2030 7 10 = endDate (last (interestRatePeriods ?b))
       then Inr (rate (last (interestRatePeriods ?b))) else Inl NoApplicableRatePeriod)"
    by (rule getInterestRate_selects_period[of ?b "createDate 2030 7 10",
          THEN conjunct2, THEN conjunct1, rule_format, OF n3])
  also have "\<dots> = Inl NoApplicableRatePeriod" by (rule if_not_P[OF e3])
  finally have c3: "getInterestRate ?b (createDate 2030 7 10) = Inl NoApplicableRatePeriod" .
  have h4: "getInterestRate ?c (createDate 2024 1 9) = Inl NoApplicableRatePeriod \<and>
      sortedDates 0 ?c (createDate 2024 1 1) (createDate 2024 12 31)
        = Inr [createDate 2024 1 9, createDate 2024 7 9] \<and>
      createDate 2024 1 9 \<in> set [createDate 2024 1 9, createDate 2024 7 9]"
    by code_simp
  have c4: "calculateCashFlows 0 ?c 1000 (createDate 2024 1 1) (createDate 2024 12 31)
      = Inl NoApplicableRatePeriod"
    by (rule getInterestRate_selects_period[of ?c "createDate 2024 1 9",
          THEN conjunct2, THEN conjunct2, THEN conjunct2, rule_format, OF h4])
  show ?thesis using p c1 c2 c3 c4 by blast
qed

section \<open>Properties of the principal tracker\<close>

definition bondAmortizedAtIssue :: Bond where
  "bondAmortizedAtIssue =
     \<lparr>bond_id = ''AT-ISSUE'', name = ''Half of the principal repaid on the issue date'',
      currency = USD, issueDate = ISSUE_DATE, maxAmount = 1000,
      interestRatePeriods =
        [\<lparr>startDate = ISSUE_DATE, endDate = createDate 2024 7 9, rate = 0.0125\<rparr>],
      amortizationSchedule =
        [\<lparr>date = ISSUE_DATE, percentage = 0.5\<rparr>,
         \<lparr>date = createDate 2024 7 9, percentage = 0.5\<rparr>],
      interestPaymentMonths = INTEREST_PAYMENT_MONTHS\<rparr>"

lemma foldl_percentage:
  "foldl (\<lambda>sum payment. sum + percentage payment) a xs = a + sum_list (map percentage xs)"
  by (induction xs arbitrary: a) simp_all

lemma getOutstandingPrincipal_sum:
  "issueDate bond \<le> d \<Longrightarrow>
   getOutstandingPrincipal bond d P =
     P * (1 - sum_list (map percentage (filter (\<lambda>a. date a \<le> d) (amortizationSchedule bond))))"
  by (simp add: getOutstandingPrincipal_def foldl_percentage)

text \<open>
  Claim C4, as stated, fails: a schedule may hold an entry dated on the issue date, and
  then the outstanding principal on the issue date is already reduced.
\<close>

theorem getOutstandingPrincipal_at_issue_counterexample:
  "getOutstandingPrincipal bondAmortizedAtIssue (issueDate bondAmortizedAtIssue) 1000 \<noteq> 1000"
  by code_simp

text \<open>
  Claim C4, amended.  \<open>getOutstandingPrincipal\<close> returns \<open>P\<close> unchanged for a date before
  the issue date, and otherwise \<open>P\<close> times one minus the sum of the percentages of the
  amortization payments dated on or before the query date.  Consequently it is \<open>P\<close> on
  the issue date when every amortization payment is dated after the issue date; and it
  equals \<open>0\<close> within epsilon on the date of the latest amortization payment when that
  date is not before the issue date and the percentages sum to \<open>1\<close>.  Over the real
  numbers the bound holds for every tolerance \<open>epsilon \<ge> 0\<close>.
\<close>

theorem getOutstandingPrincipal_amortized:
  "(d < issueDate bond \<longrightarrow> getOutstandingPrincipal bond d P = P) \<and>
   (issueDate bond \<le> d \<longrightarrow>
      getOutstandingPrincipal bond d P =
        P * (1 - sum_list (map percentage
                   (filter (\<lambda>a. date a \<le> d) (amortizationSchedule bond))))) \<and>
   ((\<forall>a\<in>set (amortizationSchedule bond). issueDate bond < date a) \<longrightarrow>
      getOutstandingPrincipal bond (issueDate bond) P = P) \<and>
   (\<forall>m\<in>set (amortizationSchedule bond).
      (\<forall>a\<in>set (amortizationSchedule bond). date a \<le> date m) \<and>
      issueDate bond \<le> date m \<and>
      sum_list (map percentage (amortizationSchedule bond)) = 1 \<and>
      0 \<le> epsilon \<longrightarrow>
      \<bar>getOutstandingPrincipal bond (date m) P\<bar> \<le> epsilon)"
proof -
  let ?s = "amortizationSchedule bond"
  have A: "d < issueDate bond \<longrightarrow> getOutstandingPrincipal bond d P = P"
    by (simp add: getOutstandingPrincipal_def)
  have B: "issueDate bond \<le> d \<longrightarrow>
      getOutstandingPrincipal bond d P =
        P * (1 - sum_list (map percentage (filter (\<lambda>a. date a \<le> d) ?s)))"
    by (simp add: getOutstandingPrincipal_sum)
  have C: "(\<forall>a\<in>set ?s. issueDate bond < date a) \<longrightarrow>
      getOutstandingPrincipal bond (issueDate bond) P = P"
  proof
    assume "\<forall>a\<in>set ?s. issueDate bond < date a"
    then have "filter (\<lambda>a. date a \<le> issueDate bond) ?s = []"
      by (auto simp: filter_empty_conv)
    then show "getOutstandingPrincipal bond (issueDate bond) P = P"
      by (simp add: getOutstandingPrincipal_sum)
  qed
  have D: "\<forall>m\<in>set ?s. (\<forall>a\<in>set ?s. date a \<le> date m) \<and> issueDate bond \<le> date m \<and>
      sum_list (map percentage ?s) = 1 \<and> 0 \<le> epsilon \<longrightarrow>
      \<bar>getOutstandingPrincipal bond (date m) P\<bar> \<le> epsilon"
  proof (intro ballI impI)
    fix m
    assume h: "(\<forall>a\<in>set ?s. date a \<le> date m) \<and> issueDate bond \<le> date m \<and>
      sum_list (map percentage ?s) = 1 \<and> 0 \<le> epsilon"
    then have "filter (\<lambda>a. date a \<le> date m) ?s = ?s"
      by (simp add: filter_id_conv)
    then have "getOutstandingPrincipal bond (date m) P = 0"
      using h by (simp add: getOutstandingPrincipal_sum)
    then show "\<bar>getOutstandingPrincipal bond (date m) P\<bar> \<le> epsilon"
      using h by simp
  qed
  show ?thesis using A B C D by blast
qed

theorem getOutstandingPrincipal_amortized_witness:
  "getOutstandingPrincipal USD_STEP_UP_2038 (createDate 2020 1 1) 1000 = 1000 \<and>
   getOutstandingPrincipal USD_STEP_UP_2038 (issueDate USD_STEP_UP_2038) 1000 = 1000 \<and>
   \<lparr>date = createDate 2037 7 9, percentage = 1 / 22\<rparr>
     \<in> set (amortizationSchedule USD_STEP_UP_2038) \<and>
   \<bar>getOutstandingPrincipal USD_STEP_UP_2038 (createDate 2037 7 9) 1000\<bar> \<le> 1 / 10 ^ 9"
proof -
  let ?b = "USD_STEP_UP_2038"
  let ?s = "amortizationSchedule USD_STEP_UP_2038"
  let ?m = "\<lparr>date = createDate 2037 7 9, percentage = 1 / 22\<rparr>"
  note inst = getOutstandingPrincipal_amortized[of "createDate 2020 1 1" ?b 1000 "1 / 10 ^ 9"]
  have h1: "createDate 2020 1 1 < issueDate ?b" by code_simp
  have c1: "getOutstandingPrincipal ?b (createDate 2020 1 1) 1000 = 1000"
    by (rule inst[THEN conjunct1, THEN mp, OF h1])
  have h2: "\<forall>a\<in>set ?s. issueDate ?b < date a" by code_simp
  have c2: "getOutstandingPrincipal ?b (issueDate ?b) 1000 = 1000"
    by (rule inst[THEN conjunct2, THEN conjunct2, THEN conjunct1, THEN mp, OF h2])
  have m: "?m \<in> set ?s" by code_simp
  have h3: "(\<forall>a\<in>set ?s. date a \<le> date ?m) \<and> issueDate ?b \<le> date ?m \<and>
      sum_list (map percentage ?s) = 1 \<and> (0::real) \<le> 1 / 10 ^ 9"
    by code_simp
  have "\<bar>getOutstandingPrincipal ?b (date ?m) 1000\<bar> \<le> 1 / 10 ^ 9"
    by (rule inst[THEN conjunct2, THEN conjunct2, THEN conjunct2, THEN bspec, OF m, THEN mp, OF h3])
  then have c3: "\<bar>getOutstandingPrincipal ?b (createDate 2037 7 9) 1000\<bar> \<le> 1 / 10 ^ 9"
    by simp
  show ?thesis using c1 c2 m c3 by blast
qed

section \<open>The unguarded read of the last schedule entry\<close>

lemma sortedDates_TypeError_iff:
  "sortedDates tz bond startD endD = Inl e \<longleftrightarrow> amortizationSchedule bond = [] \<and> e = TypeError"
  by (auto simp: sortedDates_def lastElement_def Let_def)

text \<open>
  Claim C9.  \<open>calculateCashFlows\<close> reads the last entry of the amortization schedule
  whatever the window.  For a non-empty schedule the read yields the last entry and the
  generator never stops with a \<open>TypeError\<close>; for an empty schedule the generator stops
  with the \<open>TypeError\<close> of the runtime, not with an error of its own.
\<close>

theorem calculateCashFlows_last_entry_read:
  "(amortizationSchedule bond \<noteq> [] \<longrightarrow>
      lastElement (amortizationSchedule bond) = Some (last (amortizationSchedule bond)) \<and>
      calculateCashFlows tz bond P startD endD \<noteq> Inl TypeError) \<and>
   (amortizationSchedule bond = [] \<longrightarrow>
      lastElement (amortizationSchedule bond) = None \<and>
      calculateCashFlows tz bond P startD endD = Inl TypeError)"
proof (intro conjI impI)
  assume ne: "amortizationSchedule bond \<noteq> []"
  show "lastElement (amortizationSchedule bond) = Some (last (amortizationSchedule bond))"
    using ne by (rule lastElement_Some)
  show "calculateCashFlows tz bond P startD endD \<noteq> Inl TypeError"
  proof (cases "sortedDates tz bond startD endD")
    case (Inl e)
    then show ?thesis using ne by (simp add: sortedDates_TypeError_iff)
  next
    case (Inr ds)
    show ?thesis
    proof
      assume "calculateCashFlows tz bond P startD endD = Inl TypeError"
      then have "paymentLoop bond P ds P (issueDate bond) [] = Inl TypeError"
        using Inr by (simp add: calculateCashFlows_def)
      then show False using paymentLoop_error by fastforce
    qed
  qed
next
  assume e: "amortizationSchedule bond = []"
  show "lastElement (amortizationSchedule bond) = None"
    using e by (simp add: lastElement_def)
  have "sortedDates tz bond startD endD = Inl TypeError"
    using e by (simp add: sortedDates_TypeError_iff)
  then show "calculateCashFlows tz bond P startD endD = Inl TypeError"
    by (simp add: calculateCashFlows_def)
qed

theorem calculateCashFlows_last_entry_read_witness:
  "amortizationSchedule USD_STEP_UP_2030 \<noteq> [] \<and>
   calculateCashFlows 0 USD_STEP_UP_2030 1000 (createDate 2024 1 1) (createDate 2024 12 31)
     \<noteq> Inl TypeError \<and>
   amortizationSchedule (USD_STEP_UP_2030\<lparr>amortizationSchedule := []\<rparr>) = [] \<and>
   calculateCashFlows 0 (USD_STEP_UP_2030\<lparr>amortizationSchedule := []\<rparr>) 1000
     (createDate 2024 1 1) (createDate 2024 12 31) = Inl TypeError"
proof -
  let ?b = "USD_STEP_UP_2030"
  let ?c = "USD_STEP_UP_2030\<lparr>amortizationSchedule := []\<rparr>"
  have h1: "amortizationSchedule ?b \<noteq> []" by (simp add: USD_STEP_UP_2030_def)
  have c1: "calculateCashFlows 0 ?b 1000 (createDate 2024 1 1) (createDate 2024 12 31) \<noteq> Inl TypeError"
    by (rule calculateCashFlows_last_entry_read[of ?b 0 1000 "createDate 2024 1 1" "createDate 2024 12 31",
          THEN conjunct1, rule_format, OF h1, THEN conjunct2])
  have h2: "amortizationSchedule ?c = []" by simp
  have c2: "calculateCashFlows 0 ?c 1000 (createDate 2024 1 1) (createDate 2024 12 31) = Inl TypeError"
    by (rule calculateCashFlows_last_entry_read[of ?c 0 1000 "createDate 2024 1 1" "createDate 2024 12 31",
          THEN conjunct2, rule_format, OF h2, THEN conjunct2])
  show ?thesis using h1 c1 h2 c2 by blast
qed

section \<open>Properties of the cash flow generator\<close>

declare monthLoop.simps [simp del]

lemma setAdd_distinct: "distinct xs \<Longrightarrow> distinct (setAdd x xs)"
  by (simp add: setAdd_def)

lemma set_setAdd: "set (setAdd x xs) = insert x (set xs)"
  by (auto simp: setAdd_def)

lemma monthLoop_distinct:
  "distinct acc \<Longrightarrow> distinct (monthLoop tz bond startD endD lastDate currentDate acc)"
proof (induction tz bond startD endD lastDate currentDate acc rule: monthLoop.induct)
  case (1 tz bond startD endD lastDate currentDate acc)
  show ?case
  proof (cases "currentDate \<le> lastDate")
    case True
    then show ?thesis
      using 1 by (subst monthLoop.simps) (simp add: Let_def setAdd_distinct)
  next
    case False
    then show ?thesis using 1 by (subst monthLoop.simps) simp
  qed
qed

lemma addAmortizationDates_distinct_aux:
  "distinct acc \<Longrightarrow>
   distinct (foldl (\<lambda>acc payment.
              if date payment \<ge> startD \<and> date payment \<le> endD then setAdd (date payment) acc
              else acc) acc xs)"
  by (induction xs arbitrary: acc) (simp_all add: setAdd_distinct)

lemma addAmortizationDates_distinct:
  "distinct acc \<Longrightarrow> distinct (addAmortizationDates bond startD endD acc)"
  unfolding addAmortizationDates_def by (rule addAmortizationDates_distinct_aux)

lemma sortedDates_sorted_distinct:
  assumes "sortedDates tz bond startD endD = Inr ds"
  shows "sorted ds" "distinct ds"
proof -
  from assms obtain xs where ds: "ds = sort xs"
    and xs: "xs = addAmortizationDates bond startD endD
                (monthLoop tz bond startD endD
                   (min (date (last (amortizationSchedule bond)) + 24 * 60 * 60 * 1000) endD)
                   (max (issueDate bond) startD) [])"
    by (auto simp: sortedDates_def lastElement_def Let_def split: if_splits)
  show "sorted ds" by (simp add: ds)
  have "distinct xs" unfolding xs
    by (intro addAmortizationDates_distinct monthLoop_distinct) simp
  then show "distinct ds" by (simp add: ds)
qed

definition principalOn :: "Bond \<Rightarrow> real \<Rightarrow> int \<Rightarrow> real" where
  "principalOn bond P d =
     (case find (\<lambda>payment. date payment = d) (amortizationSchedule bond) of
        Some amortizationPayment \<Rightarrow> P * percentage amortizationPayment
      | None \<Rightarrow> 0)"

definition paymentOn :: "Bond \<Rightarrow> real \<Rightarrow> real \<Rightarrow> int \<Rightarrow> int \<Rightarrow> real \<Rightarrow> CashFlowPayment" where
  "paymentOn bond P out prevD d r =
     \<lparr>cf_date = d, bondId = bond_id bond, principal = principalOn bond P d,
      interest = out * r * (real_of_int (d - prevD) / real_of_int (1000 * 60 * 60 * 24) / 360),
      total = principalOn bond P d +
              out * r * (real_of_int (d - prevD) / real_of_int (1000 * 60 * 60 * 24) / 360),
      cf_currency = currency bond\<rparr>"

lemma paymentLoop_Cons:
  "paymentLoop bond P (d # ds) out lastD acc =
     (case getInterestRate bond d of
        Inl e \<Rightarrow> Inl e
      | Inr r \<Rightarrow> paymentLoop bond P ds (out - principalOn bond P d) d
                  (acc @ [paymentOn bond P out lastD d r]))"
  by (simp add: Let_def principalOn_def paymentOn_def split: sum.splits)

declare paymentLoop.simps(2) [simp del]

lemma paymentLoop_Inr:
  "paymentLoop bond P ds out lastD acc = Inr res \<Longrightarrow>
   \<exists>fs. res = acc @ fs \<and> length fs = length ds \<and>
     (\<forall>i<length ds. \<exists>r. getInterestRate bond (ds ! i) = Inr r \<and>
        fs ! i = paymentOn bond P (out - sum_list (map principal (take i fs)))
                   ((lastD # ds) ! i) (ds ! i) r)"
proof (induction ds arbitrary: out lastD acc)
  case Nil
  then show ?case by simp
next
  case (Cons d ds)
  from Cons.prems obtain r where r: "getInterestRate bond d = Inr r"
    and rec: "paymentLoop bond P ds (out - principalOn bond P d) d
                (acc @ [paymentOn bond P out lastD d r]) = Inr res"
    by (auto simp: paymentLoop_Cons split: sum.splits)
  define f where "f = paymentOn bond P out lastD d r"
  from Cons.IH[OF rec] obtain fs where fs: "res = (acc @ [f]) @ fs" "length fs = length ds"
    and ix: "\<forall>i<length ds. \<exists>r. getInterestRate bond (ds ! i) = Inr r \<and>
        fs ! i = paymentOn bond P (out - principalOn bond P d - sum_list (map principal (take i fs)))
                   ((d # ds) ! i) (ds ! i) r"
    unfolding f_def by blast
  have pf: "principal f = principalOn bond P d" by (simp add: f_def paymentOn_def)
  have "\<forall>i<length (d # ds). \<exists>r. getInterestRate bond ((d # ds) ! i) = Inr r \<and>
        (f # fs) ! i = paymentOn bond P (out - sum_list (map principal (take i (f # fs))))
                   ((lastD # d # ds) ! i) ((d # ds) ! i) r"
  proof (intro allI impI)
    fix i assume i: "i < length (d # ds)"
    show "\<exists>r. getInterestRate bond ((d # ds) ! i) = Inr r \<and>
        (f # fs) ! i = paymentOn bond P (out - sum_list (map principal (take i (f # fs))))
                   ((lastD # d # ds) ! i) ((d # ds) ! i) r"
    proof (cases i)
      case 0
      then show ?thesis using r by (simp add: f_def)
    next
      case (Suc k)
      then have k: "k < length ds" using i by simp
      from ix k obtain r' where r': "getInterestRate bond (ds ! k) = Inr r'"
        "fs ! k = paymentOn bond P (out - principalOn bond P d - sum_list (map principal (take k fs)))
                   ((d # ds) ! k) (ds ! k) r'" by blast
      show ?thesis using r' Suc by (simp add: pf diff_diff_eq)
    qed
  qed
  moreover have "res = acc @ (f # fs)" using fs by simp
  moreover have "length (f # fs) = length (d # ds)" using fs by simp
  ultimately show ?case by blast
qed

lemma paymentLoop_succeeds:
  "\<forall>d\<in>set ds. \<exists>r. getInterestRate bond d = Inr r \<Longrightarrow>
   \<exists>res. paymentLoop bond P ds out lastD acc = Inr res"
proof (induction ds arbitrary: out lastD acc)
  case Nil
  then show ?case by simp
next
  case (Cons d ds)
  then obtain r where "getInterestRate bond d = Inr r" by auto
  then show ?case using Cons by (simp add: paymentLoop_Cons)
qed

lemma principalOn_cases:
  "((\<forall>a\<in>set (amortizationSchedule bond). date a \<noteq> d) \<longrightarrow> principalOn bond P d = 0) \<and>
   ((\<exists>a\<in>set (amortizationSchedule bond). date a = d) \<longrightarrow>
      (\<exists>k<length (amortizationSchedule bond).
         date (amortizationSchedule bond ! k) = d \<and>
         (\<forall>j<k. date (amortizationSchedule bond ! j) \<noteq> d) \<and>
         principalOn bond P d = P * percentage (amortizationSchedule bond ! k)))"
proof (cases "find (\<lambda>payment. date payment = d) (amortizationSchedule bond)")
  case None
  then have "principalOn bond P d = 0" by (simp add: principalOn_def)
  moreover have "\<forall>a\<in>set (amortizationSchedule bond). date a \<noteq> d"
    using None by (auto simp: find_None_iff)
  ultimately show ?thesis by auto
next
  case (Some a)
  from find_first_index[OF Some] obtain k where
    "k < length (amortizationSchedule bond)" "amortizationSchedule bond ! k = a" "date a = d"
    "\<forall>j<k. date (amortizationSchedule bond ! j) \<noteq> d" by blast
  moreover have "principalOn bond P d = P * percentage a" using Some by (simp add: principalOn_def)
  ultimately show ?thesis by auto
qed

lemma whole_days:
  assumes "msPerDay dvd a" "msPerDay dvd b"
  shows "real_of_int (a - b) / real_of_int (1000 * 60 * 60 * 24) = real_of_int (Day a - Day b)"
proof -
  from assms obtain x y where "a = msPerDay * x" "b = msPerDay * y" by (auto simp: dvd_def)
  then have "Day a = x" "Day b = y" "a - b = 86400000 * (x - y)"
    by (simp_all add: Day_def msPerDay_def algebra_simps)
  then show ?thesis by simp
qed

text \<open>
  Claim C1.  Let \<open>ds\<close> be the scheduled dates of a bond and a window.  They are in
  ascending order without repetition.  If the rate resolver fails on one of them the
  generator fails; otherwise it emits exactly one payment for each scheduled date, in
  that order.  The principal of the payment on date \<open>ds ! i\<close> is \<open>0\<close> when no
  amortization entry has that date, and \<open>initialPrincipal\<close> times the percentage of the
  (first) entry with exactly that date otherwise.  Its interest is the outstanding
  principal (the initial principal less the principal of all earlier payments) times the
  rate on \<open>ds ! i\<close> times the days since the previous scheduled date (the issue date for
  the first payment) over \<open>360\<close>; the days are the elapsed milliseconds over the length
  of a day, a whole number of calendar days when both dates are at midnight UTC.
\<close>

theorem calculateCashFlows_walks_schedule:
  assumes "sortedDates tz bond startD endD = Inr ds"
  shows "sorted ds \<and> distinct ds \<and>
    ((\<exists>d\<in>set ds. \<exists>e. getInterestRate bond d = Inl e) \<longrightarrow>
       calculateCashFlows tz bond P startD endD = Inl NoApplicableRatePeriod) \<and>
    ((\<forall>d\<in>set ds. \<exists>r. getInterestRate bond d = Inr r) \<longrightarrow>
       (\<exists>flows. calculateCashFlows tz bond P startD endD = Inr flows \<and>
          length flows = length ds \<and>
          (\<forall>i<length ds.
             cf_date (flows ! i) = ds ! i \<and>
             bondId (flows ! i) = bond_id bond \<and>
             cf_currency (flows ! i) = currency bond \<and>
             total (flows ! i) = principal (flows ! i) + interest (flows ! i) \<and>
             ((\<forall>a\<in>set (amortizationSchedule bond). date a \<noteq> ds ! i) \<longrightarrow>
                principal (flows ! i) = 0) \<and>
             ((\<exists>a\<in>set (amortizationSchedule bond). date a = ds ! i) \<longrightarrow>
                (\<exists>k<length (amortizationSchedule bond).
                   date (amortizationSchedule bond ! k) = ds ! i \<and>
                   (\<forall>j<k. date (amortizationSchedule bond ! j) \<noteq> ds ! i) \<and>
                   principal (flows ! i) = P * percentage (amortizationSchedule bond ! k))) \<and>
             (\<exists>r. getInterestRate bond (ds ! i) = Inr r \<and>
                interest (flows ! i) =
                  (P - sum_list (map principal (take i flows))) * r *
                  (real_of_int (ds ! i - (issueDate bond # ds) ! i) /
                     real_of_int (1000 * 60 * 60 * 24) / 360)) \<and>
             (msPerDay dvd ds ! i \<and> msPerDay dvd (issueDate bond # ds) ! i \<longrightarrow>
                real_of_int (ds ! i - (issueDate bond # ds) ! i) / real_of_int (1000 * 60 * 60 * 24)
                  = real_of_int (Day (ds ! i) - Day ((issueDate bond # ds) ! i))))))"
proof (intro conjI impI)
  show "sorted ds" "distinct ds"
    using sortedDates_sorted_distinct[OF assms] by simp_all
next
  assume "\<exists>d\<in>set ds. \<exists>e. getInterestRate bond d = Inl e"
  then obtain d e where "d \<in> set ds" "getInterestRate bond d = Inl e" by blast
  then show "calculateCashFlows tz bond P startD endD = Inl NoApplicableRatePeriod"
    using assms by (simp add: calculateCashFlows_def paymentLoop_fails)
next
  assume ok: "\<forall>d\<in>set ds. \<exists>r. getInterestRate bond d = Inr r"
  let ?Q = "\<lambda>flows i.
             cf_date (flows ! i) = ds ! i \<and>
             bondId (flows ! i) = bond_id bond \<and>
             cf_currency (flows ! i) = currency bond \<and>
             total (flows ! i) = principal (flows ! i) + interest (flows ! i) \<and>
             ((\<forall>a\<in>set (amortizationSchedule bond). date a \<noteq> ds ! i) \<longrightarrow>
                principal (flows ! i) = 0) \<and>
             ((\<exists>a\<in>set (amortizationSchedule bond). date a = ds ! i) \<longrightarrow>
                (\<exists>k<length (amortizationSchedule bond).
                   date (amortizationSchedule bond ! k) = ds ! i \<and>
                   (\<forall>j<k. date (amortizationSchedule bond ! j) \<noteq> ds ! i) \<and>
                   principal (flows ! i) = P * percentage (amortizationSchedule bond ! k))) \<and>
             (\<exists>r. getInterestRate bond (ds ! i) = Inr r \<and>
                interest (flows ! i) =
                  (P - sum_list (map principal (take i flows))) * r *
                  (real_of_int (ds ! i - (issueDate bond # ds) ! i) /
                     real_of_int (1000 * 60 * 60 * 24) / 360)) \<and>
             (msPerDay dvd ds ! i \<and> msPerDay dvd (issueDate bond # ds) ! i \<longrightarrow>
                real_of_int (ds ! i - (issueDate bond # ds) ! i) / real_of_int (1000 * 60 * 60 * 24)
                  = real_of_int (Day (ds ! i) - Day ((issueDate bond # ds) ! i)))"
  from paymentLoop_succeeds[OF ok] obtain flows where
    run: "paymentLoop bond P ds P (issueDate bond) [] = Inr flows" by blast
  from paymentLoop_Inr[OF run] have len: "length flows = length ds"
    and ix: "\<forall>i<length ds. \<exists>r. getInterestRate bond (ds ! i) = Inr r \<and>
        flows ! i = paymentOn bond P (P - sum_list (map principal (take i flows)))
                      ((issueDate bond # ds) ! i) (ds ! i) r"
    by auto
  have "\<forall>i<length ds. ?Q flows i"
  proof (intro allI impI)
    fix i assume "i < length ds"
    with ix obtain r where r: "getInterestRate bond (ds ! i) = Inr r"
      and f: "flows ! i = paymentOn bond P (P - sum_list (map principal (take i flows)))
                      ((issueDate bond # ds) ! i) (ds ! i) r" by blast
    have p: "principal (flows ! i) = principalOn bond P (ds ! i)"
      by (subst f) (simp add: paymentOn_def)
    have i: "interest (flows ! i) =
                  (P - sum_list (map principal (take i flows))) * r *
                  (real_of_int (ds ! i - (issueDate bond # ds) ! i) /
                     real_of_int (1000 * 60 * 60 * 24) / 360)"
      by (subst f) (simp add: paymentOn_def)
    have o: "cf_date (flows ! i) = ds ! i" "bondId (flows ! i) = bond_id bond"
      "cf_currency (flows ! i) = currency bond"
      by (subst f, simp add: paymentOn_def)+
    have t: "total (flows ! i) = principalOn bond P (ds ! i) +
                  (P - sum_list (map principal (take i flows))) * r *
                  (real_of_int (ds ! i - (issueDate bond # ds) ! i) /
                     real_of_int (1000 * 60 * 60 * 24) / 360)"
      by (subst f) (simp add: paymentOn_def)
    have t': "total (flows ! i) = principal (flows ! i) + interest (flows ! i)"
      unfolding t p i ..
    show "?Q flows i"
      unfolding p
      using o t' r i principalOn_cases[of bond "ds ! i" P] whole_days[of "ds ! i" "(issueDate bond # ds) ! i"]
      unfolding p
      by blast
  qed
  then show "\<exists>flows. calculateCashFlows tz bond P startD endD = Inr flows \<and>
          length flows = length ds \<and> (\<forall>i<length ds. ?Q flows i)"
    using run len assms by (simp add: calculateCashFlows_def)
qed


theorem calculateCashFlows_walks_schedule_witness:
  "sortedDates 0 USD_STEP_UP_2030 (createDate 2023 1 1) (createDate 2024 12 31) =
     Inr [createDate 2023 1 9, createDate 2023 7 9, createDate 2024 1 9, createDate 2024 7 9] \<and>
   (\<exists>flows. calculateCashFlows 0 USD_STEP_UP_2030 1000 (createDate 2023 1 1) (createDate 2024 12 31)
              = Inr flows \<and> length flows = 4) \<and>
   sortedDates 0 (USD_STEP_UP_2030\<lparr>interestRatePeriods := []\<rparr>)
       (createDate 2023 1 1) (createDate 2024 12 31) =
     Inr [createDate 2023 1 9, createDate 2023 7 9, createDate 2024 1 9, createDate 2024 7 9] \<and>
   calculateCashFlows 0 (USD_STEP_UP_2030\<lparr>interestRatePeriods := []\<rparr>) 1000
       (createDate 2023 1 1) (createDate 2024 12 31) = Inl NoApplicableRatePeriod"
proof -
  let ?b = "USD_STEP_UP_2030"
  let ?c = "USD_STEP_UP_2030\<lparr>interestRatePeriods := []\<rparr>"
  let ?ds = "[createDate 2023 1 9, createDate 2023 7 9, createDate 2024 1 9, createDate 2024 7 9]"
  have h: "sortedDates 0 ?b (createDate 2023 1 1) (createDate 2024 12 31) = Inr ?ds"
    by code_simp
  have r: "getInterestRate ?b (createDate 2023 1 9) = Inr 0.005"
    "getInterestRate ?b (createDate 2023 7 9) = Inr 0.0075"
    "getInterestRate ?b (createDate 2024 1 9) = Inr 0.0075"
    "getInterestRate ?b (createDate 2024 7 9) = Inr 0.0075"
    by code_simp+
  have ok: "\<forall>d\<in>set ?ds. \<exists>r. getInterestRate ?b d = Inr r"
    using r by (simp only: list.set ball_simps ball_empty) blast
  from calculateCashFlows_walks_schedule[OF h, of 1000, THEN conjunct2, THEN conjunct2,
      THEN conjunct2, THEN mp, OF ok]
  obtain flows where "calculateCashFlows 0 ?b 1000 (createDate 2023 1 1) (createDate 2024 12 31) = Inr flows"
    "length flows = length ?ds" by blast
  then have c1: "\<exists>flows. calculateCashFlows 0 ?b 1000 (createDate 2023 1 1) (createDate 2024 12 31)
              = Inr flows \<and> length flows = 4" by simp
  have h': "sortedDates 0 ?c (createDate 2023 1 1) (createDate 2024 12 31) = Inr ?ds"
    by code_simp
  have "getInterestRate ?c (createDate 2023 1 9) = Inl NoApplicableRatePeriod"
    by code_simp
  then have bad: "\<exists>d\<in>set ?ds. \<exists>e. getInterestRate ?c d = Inl e"
    by (simp only: list.set bex_simps) blast
  have c2: "calculateCashFlows 0 ?c 1000 (createDate 2023 1 1) (createDate 2024 12 31)
      = Inl NoApplicableRatePeriod"
    by (rule calculateCashFlows_walks_schedule[OF h', of 1000, THEN conjunct2, THEN conjunct2,
      THEN conjunct1, THEN mp, OF bad])
  show ?thesis using h c1 h' c2 by blast
qed

section \<open>Repayment of the principal over the lifetime\<close>

definition totalPrincipal :: "CashFlowPayment list \<Rightarrow> real" where
  "totalPrincipal flows = sum_list (map principal flows)"

definition bondRepaidBeforeIssue :: Bond where
  "bondRepaidBeforeIssue =
     \<lparr>bond_id = ''BEFORE-ISSUE'', name = ''Half of the principal repaid before the issue date'',
      currency = USD, issueDate = ISSUE_DATE, maxAmount = 1000,
      interestRatePeriods =
        [\<lparr>startDate = ISSUE_DATE, endDate = createDate 2024 7 9, rate = 0.0125\<rparr>],
      amortizationSchedule =
        [\<lparr>date = createDate 2020 7 9, percentage = 0.5\<rparr>,
         \<lparr>date = createDate 2024 7 9, percentage = 0.5\<rparr>],
      interestPaymentMonths = INTEREST_PAYMENT_MONTHS\<rparr>"

lemma addAmortizationDates_set_aux:
  "set (foldl (\<lambda>acc payment.
              if date payment \<ge> startD \<and> date payment \<le> endD then setAdd (date payment) acc
              else acc) acc xs)
   = set acc \<union> {date a | a. a \<in> set xs \<and> startD \<le> date a \<and> date a \<le> endD}"
  by (induction xs arbitrary: acc) (auto simp: set_setAdd)

lemma addAmortizationDates_set:
  "set (addAmortizationDates bond startD endD acc)
   = set acc \<union> {date a | a. a \<in> set (amortizationSchedule bond) \<and> startD \<le> date a \<and> date a \<le> endD}"
  unfolding addAmortizationDates_def by (rule addAmortizationDates_set_aux)

lemma sortedDates_set:
  assumes "sortedDates tz bond startD endD = Inr ds"
  shows "set ds =
     set (monthLoop tz bond startD endD
            (min (date (last (amortizationSchedule bond)) + 24 * 60 * 60 * 1000) endD)
            (max (issueDate bond) startD) []) \<union>
     {date a | a. a \<in> set (amortizationSchedule bond) \<and> startD \<le> date a \<and> date a \<le> endD}"
  using assms
  by (auto simp: sortedDates_def lastElement_def Let_def addAmortizationDates_set split: if_splits)

lemma paymentLoop_principals:
  assumes "paymentLoop bond P ds out lastD [] = Inr flows"
  shows "map principal flows = map (principalOn bond P) ds"
proof -
  from paymentLoop_Inr[OF assms] have len: "length flows = length ds"
    and ix: "\<forall>i<length ds. \<exists>r. flows ! i = paymentOn bond P (out - sum_list (map principal (take i flows)))
                   ((lastD # ds) ! i) (ds ! i) r"
    by auto
  show ?thesis
  proof (rule nth_equalityI)
    show "length (map principal flows) = length (map (principalOn bond P) ds)"
      using len by simp
  next
    fix i assume "i < length (map principal flows)"
    then have i: "i < length ds" using len by simp
    with ix obtain r where "flows ! i = paymentOn bond P (out - sum_list (map principal (take i flows)))
                   ((lastD # ds) ! i) (ds ! i) r" by blast
    then have "principal (flows ! i) = principalOn bond P (ds ! i)"
      by (simp add: paymentOn_def)
    then show "map principal flows ! i = map (principalOn bond P) ds ! i"
      using i len by simp
  qed
qed

lemma principalOn_entry:
  assumes "distinct (map date (amortizationSchedule bond))" "a \<in> set (amortizationSchedule bond)"
  shows "principalOn bond P (date a) = P * percentage a"
proof -
  from principalOn_cases[of bond "date a" P] assms(2)
  obtain k where k: "k < length (amortizationSchedule bond)"
    "date (amortizationSchedule bond ! k) = date a"
    "principalOn bond P (date a) = P * percentage (amortizationSchedule bond ! k)"
    by blast
  have "inj_on date (set (amortizationSchedule bond))"
    using assms(1) by (simp add: distinct_map)
  then have "amortizationSchedule bond ! k = a"
    using k assms(2) by (auto dest: inj_onD)
  then show ?thesis using k by simp
qed

lemma principalOn_no_entry:
  "d \<notin> date ` set (amortizationSchedule bond) \<Longrightarrow> principalOn bond P d = 0"
  using principalOn_cases[of bond d P] by auto

lemma paid_principals_sum:
  assumes "distinct (map date (amortizationSchedule bond))"
    and "\<forall>a\<in>set (amortizationSchedule bond). startD \<le> date a \<and> date a \<le> endD"
    and "sum_list (map percentage (amortizationSchedule bond)) = 1"
    and "calculateCashFlows tz bond P startD endD = Inr flows"
  shows "sum_list (map principal flows) = P"
proof -
  let ?s = "amortizationSchedule bond"
  from assms(4) obtain ds where ds: "sortedDates tz bond startD endD = Inr ds"
    and run: "paymentLoop bond P ds P (issueDate bond) [] = Inr flows"
    by (auto simp: calculateCashFlows_def split: sum.splits)
  have dist: "distinct ds" using sortedDates_sorted_distinct[OF ds] by simp
  have sub: "date ` set ?s \<subseteq> set ds"
    using assms(2) by (auto simp: sortedDates_set[OF ds])
  have inj: "inj_on date (set ?s)" and dists: "distinct ?s"
    using assms(1) by (simp_all add: distinct_map)
  have "sum_list (map principal flows) = sum_list (map (principalOn bond P) ds)"
    using paymentLoop_principals[OF run] by simp
  also have "\<dots> = sum (principalOn bond P) (set ds)"
    using dist by (simp add: sum_list_distinct_conv_sum_set)
  also have "\<dots> = sum (principalOn bond P) (date ` set ?s)"
    by (rule sum.mono_neutral_right) (use sub principalOn_no_entry in auto)
  also have "\<dots> = sum (\<lambda>a. principalOn bond P (date a)) (set ?s)"
    using inj by (simp add: sum.reindex)
  also have "\<dots> = sum (\<lambda>a. P * percentage a) (set ?s)"
    by (rule sum.cong) (simp_all add: principalOn_entry[OF assms(1)])
  also have "\<dots> = sum_list (map (\<lambda>a. P * percentage a) ?s)"
    using dists by (simp add: sum_list_distinct_conv_sum_set)
  also have "\<dots> = P * sum_list (map percentage ?s)"
    by (simp add: sum_list_const_mult)
  finally show ?thesis using assms(3) by simp
qed

lemma strictly_increasing_last:
  fixes xs :: "int list"
  shows "sorted_wrt (<) xs \<Longrightarrow> x \<in> set xs \<Longrightarrow> x \<le> last xs"
proof (induction xs)
  case Nil
  then show ?case by simp
next
  case (Cons y ys)
  show ?case
  proof (cases "ys = []")
    case True
    then show ?thesis using Cons.prems by simp
  next
    case False
    then have l: "last (y # ys) = last ys" "last ys \<in> set ys" by simp_all
    show ?thesis
    proof (cases "x = y")
      case True
      then have "x < last ys" using Cons.prems(1) l(2) by simp
      then show ?thesis using l(1) by simp
    next
      case False
      then have "x \<in> set ys" using Cons.prems(2) by simp
      moreover have "sorted_wrt (<) ys" using Cons.prems(1) by simp
      ultimately have "x \<le> last ys" by (rule Cons.IH[rotated])
      then show ?thesis using l(1) by simp
    qed
  qed
qed

text \<open>
  Claim C5, as stated, fails.  The schedule below has strictly increasing dates and
  percentages that sum to \<open>1\<close>, but its first entry is dated before the issue date.  The
  window from the issue date through the last amortization date does not contain that
  entry, the scheduler keeps amortization dates inside the window only, and the
  generator repays half of the principal.
\<close>

theorem calculateCashFlows_before_issue_counterexample:
  "sorted_wrt (<) (map date (amortizationSchedule bondRepaidBeforeIssue)) \<and>
   sum_list (map percentage (amortizationSchedule bondRepaidBeforeIssue)) = 1 \<and>
   map_sum id totalPrincipal
     (calculateCashFlows 0 bondRepaidBeforeIssue 1000 (issueDate bondRepaidBeforeIssue)
        (date (last (amortizationSchedule bondRepaidBeforeIssue))))
     = Inr 500"
  by code_simp

text \<open>
  The strictly increasing dates of the data model are not a formality for the reference
  data: the schedule of \<open>USD-STEP-UP-2038\<close> is not in ascending order.  Its last entry
  is dated 2037-01-09, half a year before its latest entry, and a window that ends on
  the date of the last entry leaves that repayment out.
\<close>

lemma USD_STEP_UP_2038_schedule_order:
  "\<not> sorted (map date (amortizationSchedule USD_STEP_UP_2038)) \<and>
   date (last (amortizationSchedule USD_STEP_UP_2038)) = createDate 2037 1 9 \<and>
   Max (set (map date (amortizationSchedule USD_STEP_UP_2038))) = createDate 2037 7 9 \<and>
   map_sum id totalPrincipal
     (calculateCashFlows 0 USD_STEP_UP_2038 1000 ISSUE_DATE (createDate 2037 1 9)) = Inr (10500 / 11)"
  by code_simp

text \<open>
  Claim C5, amended.  For every bond whose amortization dates are strictly increasing
  and not before the issue date and whose percentages sum to \<open>1\<close>, and every window that
  covers the bond's full lifetime, from the issue date through the last amortization
  date, the principal fields of the payments that the generator returns sum to the
  initial principal, within epsilon.  Over the real numbers the bound holds for every
  tolerance \<open>epsilon \<ge> 0\<close>.
\<close>

theorem calculateCashFlows_repays_principal:
  assumes "sorted_wrt (<) (map date (amortizationSchedule bond))"
    and "\<forall>a\<in>set (amortizationSchedule bond). issueDate bond \<le> date a"
    and "sum_list (map percentage (amortizationSchedule bond)) = 1"
    and "startD \<le> issueDate bond"
    and "date (last (amortizationSchedule bond)) \<le> endD"
    and "calculateCashFlows tz bond P startD endD = Inr flows"
    and "0 \<le> epsilon"
  shows "\<bar>sum_list (map principal flows) - P\<bar> \<le> epsilon"
proof -
  let ?s = "amortizationSchedule bond"
  have ne: "?s \<noteq> []"
  proof
    assume "?s = []"
    then have "sortedDates tz bond startD endD = Inl TypeError"
      by (simp add: sortedDates_TypeError_iff)
    then show False using assms(6) by (simp add: calculateCashFlows_def)
  qed
  have d: "distinct (map date ?s)"
    using assms(1) by (simp only: strict_sorted_iff)
  have l: "last (map date ?s) = date (last ?s)" using ne by (simp add: last_map)
  have w: "\<forall>a\<in>set ?s. startD \<le> date a \<and> date a \<le> endD"
  proof
    fix a assume a: "a \<in> set ?s"
    then have "date a \<in> set (map date ?s)" by simp
    then have "date a \<le> last (map date ?s)"
      using assms(1) by (rule strictly_increasing_last[rotated])
    then have "date a \<le> endD" using l assms(5) by simp
    moreover have "startD \<le> date a" using assms(2,4) a by force
    ultimately show "startD \<le> date a \<and> date a \<le> endD" by simp
  qed
  have "sum_list (map principal flows) = P"
    using d w assms(3) assms(6) by (rule paid_principals_sum)
  then show ?thesis using assms(7) by simp
qed

theorem calculateCashFlows_repays_principal_witness:
  "sorted_wrt (<) (map date (amortizationSchedule USD_STEP_UP_2030)) \<and>
   list_all (\<lambda>a. issueDate USD_STEP_UP_2030 \<le> date a) (amortizationSchedule USD_STEP_UP_2030) \<and>
   sum_list (map percentage (amortizationSchedule USD_STEP_UP_2030)) = 1 \<and>
   date (last (amortizationSchedule USD_STEP_UP_2030)) = createDate 2030 7 9 \<and>
   isl (calculateCashFlows 0 USD_STEP_UP_2030 1000 ISSUE_DATE (createDate 2030 7 9)) = False \<and>
   \<bar>sum_list (map principal
      (projr (calculateCashFlows 0 USD_STEP_UP_2030 1000 ISSUE_DATE (createDate 2030 7 9))))
     - 1000\<bar> \<le> 1 / 10 ^ 9"
proof -
  let ?b = "USD_STEP_UP_2030"
  let ?r = "calculateCashFlows 0 USD_STEP_UP_2030 1000 ISSUE_DATE (createDate 2030 7 9)"
  have h1: "sorted_wrt (<) (map date (amortizationSchedule ?b))" by code_simp
  have h2: "\<forall>a\<in>set (amortizationSchedule ?b). issueDate ?b \<le> date a" by code_simp
  have h3: "sum_list (map percentage (amortizationSchedule ?b)) = 1" by code_simp
  have h4: "ISSUE_DATE \<le> issueDate ?b" by code_simp
  have l: "date (last (amortizationSchedule ?b)) = createDate 2030 7 9" by code_simp
  then have h5: "date (last (amortizationSchedule ?b)) \<le> createDate 2030 7 9" by simp
  have h6: "isl ?r = False" by code_simp
  then have h7: "?r = Inr (projr ?r)" by (cases ?r) simp_all
  have h8: "(0::real) \<le> 1 / 10 ^ 9" by simp
  have c: "\<bar>sum_list (map principal (projr ?r)) - 1000\<bar> \<le> 1 / 10 ^ 9"
    by (rule calculateCashFlows_repays_principal[OF h1 h2 h3 h4 h5 h7 h8])
  have "list_all (\<lambda>a. issueDate ?b \<le> date a) (amortizationSchedule ?b)"
    using h2 by (simp only: list_all_iff)
  then show ?thesis using h1 h3 l h6 c by blast
qed

section \<open>Properties of the period aggregator\<close>

lemma Currency_not_USD: "c \<noteq> USD \<longleftrightarrow> c = EUR"
  by (cases c) simp_all

lemma sum_map_entry:
  fixes g :: "'v \<Rightarrow> real"
  shows "sum_list (map (\<lambda>e. g (snd e)) (AList.map_entry k f al)) =
         sum_list (map (\<lambda>e. g (snd e)) al) +
         (case map_of al k of None \<Rightarrow> 0 | Some v \<Rightarrow> g (f v) - g v)"
  by (induction al) auto

lemma sum_aggregateStep:
  fixes g :: "AggregatedCashFlow \<Rightarrow> real"
  assumes "\<And>v. g (addToPeriod c v) = g v + h c" "\<And>p. g (emptyPeriod p) = 0"
  shows "sum_list (map (\<lambda>e. g (snd e)) (aggregateStep pt agg c)) =
         sum_list (map (\<lambda>e. g (snd e)) agg) + h c"
proof (cases "map_of agg (periodKey pt (cf_date c))")
  case None
  then show ?thesis
    by (simp add: aggregateStep_def Let_def sum_map_entry map_of_append map_add_def assms)
next
  case (Some v)
  then show ?thesis
    by (simp add: aggregateStep_def Let_def sum_map_entry assms)
qed

lemma sum_foldl_aggregateStep:
  fixes g :: "AggregatedCashFlow \<Rightarrow> real"
  assumes "\<And>c v. g (addToPeriod c v) = g v + h c" "\<And>p. g (emptyPeriod p) = 0"
  shows "sum_list (map (\<lambda>e. g (snd e)) (foldl (aggregateStep pt) agg cs)) =
         sum_list (map (\<lambda>e. g (snd e)) agg) + sum_list (map h cs)"
proof (induction cs arbitrary: agg)
  case Nil
  then show ?case by simp
next
  case (Cons c cs)
  show ?case
    by (simp add: Cons.IH sum_aggregateStep[where h = h, OF assms])
qed

lemma sum_list_sort_key:
  fixes g :: "'a \<Rightarrow> real"
  shows "sum_list (map g (sort_key k xs)) = sum_list (map g xs)"
proof -
  have "mset (map g (sort_key k xs)) = mset (map g xs)" by simp
  then show ?thesis by (metis sum_mset_sum_list)
qed

lemma aggregate_sum:
  fixes g :: "AggregatedCashFlow \<Rightarrow> real"
  assumes "\<And>c v. g (addToPeriod c v) = g v + (if Q c then f c else 0)" "\<And>p. g (emptyPeriod p) = 0"
  shows "sum_list (map g (aggregateCashFlows cs pt)) = sum_list (map f (filter Q cs))"
proof -
  have "sum_list (map g (aggregateCashFlows cs pt)) =
        sum_list (map (\<lambda>e. g (snd e)) (foldl (aggregateStep pt) [] cs))"
    by (simp add: aggregateCashFlows_def sum_list_sort_key comp_def)
  also have "\<dots> = sum_list (map (\<lambda>c. if Q c then f c else 0) cs)"
    using sum_foldl_aggregateStep[where g = g and h = "\<lambda>c. if Q c then f c else 0", OF assms]
    by simp
  also have "\<dots> = sum_list (map f (filter Q cs))"
    by (simp add: sum_list_map_filter')
  finally show ?thesis .
qed

definition periodTotals :: "PeriodType \<Rightarrow> string \<Rightarrow> CashFlowPayment list \<Rightarrow> AggregatedCashFlow" where
  "periodTotals pt k cs =
     \<lparr>period = k,
      usdPrincipal = sum_list (map principal
         (filter (\<lambda>c. cf_currency c = USD \<and> periodKey pt (cf_date c) = k) cs)),
      usdInterest = sum_list (map interest
         (filter (\<lambda>c. cf_currency c = USD \<and> periodKey pt (cf_date c) = k) cs)),
      usdTotal = sum_list (map total
         (filter (\<lambda>c. cf_currency c = USD \<and> periodKey pt (cf_date c) = k) cs)),
      eurPrincipal = sum_list (map principal
         (filter (\<lambda>c. cf_currency c = EUR \<and> periodKey pt (cf_date c) = k) cs)),
      eurInterest = sum_list (map interest
         (filter (\<lambda>c. cf_currency c = EUR \<and> periodKey pt (cf_date c) = k) cs)),
      eurTotal = sum_list (map total
         (filter (\<lambda>c. cf_currency c = EUR \<and> periodKey pt (cf_date c) = k) cs))\<rparr>"

lemma periodTotals_none:
  "k \<notin> (\<lambda>c. periodKey pt (cf_date c)) ` set cs \<Longrightarrow> periodTotals pt k cs = emptyPeriod k"
proof -
  assume "k \<notin> (\<lambda>c. periodKey pt (cf_date c)) ` set cs"
  then have "\<And>cur. filter (\<lambda>c. cf_currency c = cur \<and> periodKey pt (cf_date c) = k) cs = []"
    by (auto simp: filter_empty_conv)
  then show ?thesis by (simp add: periodTotals_def emptyPeriod_def)
qed

lemma periodTotals_snoc_other:
  "periodKey pt (cf_date c) \<noteq> k \<Longrightarrow> periodTotals pt k (cs @ [c]) = periodTotals pt k cs"
  by (simp add: periodTotals_def)

lemma periodTotals_snoc_same:
  "periodKey pt (cf_date c) = k \<Longrightarrow>
   periodTotals pt k (cs @ [c]) = addToPeriod c (periodTotals pt k cs)"
  by (cases "cf_currency c") (simp_all add: periodTotals_def addToPeriod_def)

lemma aggregated_invariant:
  "distinct (map fst (foldl (aggregateStep pt) [] cs)) \<and>
   (\<forall>k. map_of (foldl (aggregateStep pt) [] cs) k =
        (if k \<in> (\<lambda>c. periodKey pt (cf_date c)) ` set cs then Some (periodTotals pt k cs) else None))"
proof (induction cs rule: rev_induct)
  case Nil
  then show ?case by simp
next
  case (snoc c cs)
  let ?agg = "foldl (aggregateStep pt) [] cs"
  let ?p = "periodKey pt (cf_date c)"
  let ?agg1 = "if map_of ?agg ?p = None then ?agg @ [(?p, emptyPeriod ?p)] else ?agg"
  have step: "foldl (aggregateStep pt) [] (cs @ [c]) = AList.map_entry ?p (addToPeriod c) ?agg1"
    by (simp add: aggregateStep_def Let_def)
  have d: "distinct (map fst ?agg)" and m: "\<And>k. map_of ?agg k =
        (if k \<in> (\<lambda>c. periodKey pt (cf_date c)) ` set cs then Some (periodTotals pt k cs) else None)"
    using snoc by simp_all
  have d1: "distinct (map fst ?agg1)"
    using d by (auto simp: map_of_eq_None_iff)
  have m1: "\<And>k. map_of ?agg1 k = (if k = ?p then Some (periodTotals pt ?p cs) else map_of ?agg k)"
  proof -
    fix k
    show "map_of ?agg1 k = (if k = ?p then Some (periodTotals pt ?p cs) else map_of ?agg k)"
    proof (cases "map_of ?agg ?p")
      case None
      then have "?p \<notin> (\<lambda>c. periodKey pt (cf_date c)) ` set cs"
        using m[of ?p] by (simp split: if_splits)
      then have "emptyPeriod ?p = periodTotals pt ?p cs" by (simp add: periodTotals_none)
      then show ?thesis using None by (simp add: map_of_append map_add_def split: option.splits)
    next
      case (Some v)
      then have "v = periodTotals pt ?p cs" using m[of ?p] by (simp split: if_splits)
      then show ?thesis using Some by simp
    qed
  qed
  have "distinct (map fst (AList.map_entry ?p (addToPeriod c) ?agg1))"
    using d1 by (simp only: distinct_map_entry)
  moreover have "\<forall>k. map_of (AList.map_entry ?p (addToPeriod c) ?agg1) k =
        (if k \<in> (\<lambda>c. periodKey pt (cf_date c)) ` set (cs @ [c])
         then Some (periodTotals pt k (cs @ [c])) else None)"
  proof
    fix k
    show "map_of (AList.map_entry ?p (addToPeriod c) ?agg1) k =
        (if k \<in> (\<lambda>c. periodKey pt (cf_date c)) ` set (cs @ [c])
         then Some (periodTotals pt k (cs @ [c])) else None)"
    proof (cases "k = ?p")
      case True
      then show ?thesis
        by (simp add: map_of_map_entry m1 periodTotals_snoc_same)
    next
      case False
      then have "periodTotals pt k (cs @ [c]) = periodTotals pt k cs"
        by (simp add: periodTotals_snoc_other)
      then show ?thesis using False
        by (simp add: map_of_map_entry m1 m)
    qed
  qed
  ultimately show ?case unfolding step by blast
qed

definition sampleFlows :: "CashFlowPayment list" where
  "sampleFlows =
     [\<lparr>cf_date = createDate 2023 1 9, bondId = ''USD-STEP-UP-2030'', principal = 0,
       interest = 5, total = 5, cf_currency = USD\<rparr>,
      \<lparr>cf_date = createDate 2023 7 9, bondId = ''EUR-STEP-UP-2030'', principal = 10,
       interest = 1, total = 11, cf_currency = EUR\<rparr>,
      \<lparr>cf_date = createDate 2023 7 9, bondId = ''USD-STEP-UP-2030'', principal = 40,
       interest = 3, total = 43, cf_currency = USD\<rparr>,
      \<lparr>cf_date = createDate 2024 1 9, bondId = ''USD-STEP-UP-2030'', principal = 0,
       interest = 4, total = 4, cf_currency = USD\<rparr>]"

lemma aggregated_entries:
  assumes "e \<in> set (aggregateCashFlows cs pt)"
  shows "e = periodTotals pt (period e) cs"
    and "period e \<in> (\<lambda>c. periodKey pt (cf_date c)) ` set cs"
proof -
  let ?agg = "foldl (aggregateStep pt) [] cs"
  from assms obtain k where k: "(k, e) \<in> set ?agg"
    by (auto simp: aggregateCashFlows_def)
  have "distinct (map fst ?agg)" using aggregated_invariant[of pt cs] by simp
  then have "map_of ?agg k = Some e" using k by simp
  moreover have "map_of ?agg k =
        (if k \<in> (\<lambda>c. periodKey pt (cf_date c)) ` set cs then Some (periodTotals pt k cs) else None)"
    using aggregated_invariant[of pt cs] by simp
  ultimately have e: "k \<in> (\<lambda>c. periodKey pt (cf_date c)) ` set cs" "e = periodTotals pt k cs"
    by (simp_all split: if_splits)
  then have "period e = k" by (simp add: periodTotals_def)
  then show "e = periodTotals pt (period e) cs"
    and "period e \<in> (\<lambda>c. periodKey pt (cf_date c)) ` set cs"
    using e by simp_all
qed

lemma aggregated_periods:
  "distinct (map period (aggregateCashFlows cs pt))"
  "set (map period (aggregateCashFlows cs pt)) = (\<lambda>c. periodKey pt (cf_date c)) ` set cs"
proof -
  let ?agg = "foldl (aggregateStep pt) [] cs"
  have inv: "distinct (map fst ?agg)" "\<And>k. map_of ?agg k =
        (if k \<in> (\<lambda>c. periodKey pt (cf_date c)) ` set cs then Some (periodTotals pt k cs) else None)"
    using aggregated_invariant[of pt cs] by simp_all
  have "\<And>x. x \<in> set ?agg \<Longrightarrow> period (snd x) = fst x"
  proof -
    fix x assume "x \<in> set ?agg"
    then have "map_of ?agg (fst x) = Some (snd x)" using inv(1) by simp
    then have "snd x = periodTotals pt (fst x) cs" using inv(2)[of "fst x"] by (simp split: if_splits)
    then show "period (snd x) = fst x" by (simp add: periodTotals_def)
  qed
  then have eq: "map period (map snd ?agg) = map fst ?agg" by simp
  have "mset (map period (aggregateCashFlows cs pt)) = mset (map fst ?agg)"
    unfolding aggregateCashFlows_def using eq by (metis mset_map mset_sort)
  then have ms: "mset (map period (aggregateCashFlows cs pt)) = mset (map fst ?agg)" .
  show "distinct (map period (aggregateCashFlows cs pt))"
    using ms inv(1) by (metis mset_eq_imp_distinct_iff)
  have "set (map fst ?agg) = (\<lambda>c. periodKey pt (cf_date c)) ` set cs"
  proof -
    have "set (map fst ?agg) = dom (map_of ?agg)" by (simp add: dom_map_of_conv_image_fst)
    also have "\<dots> = (\<lambda>c. periodKey pt (cf_date c)) ` set cs"
      by (auto simp: dom_def inv(2))
    finally show ?thesis .
  qed
  then show "set (map period (aggregateCashFlows cs pt)) = (\<lambda>c. periodKey pt (cf_date c)) ` set cs"
    using ms by (metis set_mset_mset)
qed

text \<open>
  Claim C6.  For each currency, each of the three amounts summed over all entries of the
  aggregator's output equals the same amount summed over the input payments of that
  currency.  The output has exactly one entry for each period key of an input payment,
  and the amounts of an entry are the sums over the payments with that period key and
  that currency, so no payment counts towards the other currency.
\<close>

theorem aggregateCashFlows_conserves_amounts:
  "sum_list (map usdPrincipal (aggregateCashFlows cs pt)) =
     sum_list (map principal (filter (\<lambda>c. cf_currency c = USD) cs)) \<and>
   sum_list (map usdInterest (aggregateCashFlows cs pt)) =
     sum_list (map interest (filter (\<lambda>c. cf_currency c = USD) cs)) \<and>
   sum_list (map usdTotal (aggregateCashFlows cs pt)) =
     sum_list (map total (filter (\<lambda>c. cf_currency c = USD) cs)) \<and>
   sum_list (map eurPrincipal (aggregateCashFlows cs pt)) =
     sum_list (map principal (filter (\<lambda>c. cf_currency c = EUR) cs)) \<and>
   sum_list (map eurInterest (aggregateCashFlows cs pt)) =
     sum_list (map interest (filter (\<lambda>c. cf_currency c = EUR) cs)) \<and>
   sum_list (map eurTotal (aggregateCashFlows cs pt)) =
     sum_list (map total (filter (\<lambda>c. cf_currency c = EUR) cs)) \<and>
   distinct (map period (aggregateCashFlows cs pt)) \<and>
   set (map period (aggregateCashFlows cs pt)) = (\<lambda>c. periodKey pt (cf_date c)) ` set cs \<and>
   (\<forall>e\<in>set (aggregateCashFlows cs pt).
      usdPrincipal e = sum_list (map principal
        (filter (\<lambda>c. cf_currency c = USD \<and> periodKey pt (cf_date c) = period e) cs)) \<and>
      usdInterest e = sum_list (map interest
        (filter (\<lambda>c. cf_currency c = USD \<and> periodKey pt (cf_date c) = period e) cs)) \<and>
      usdTotal e = sum_list (map total
        (filter (\<lambda>c. cf_currency c = USD \<and> periodKey pt (cf_date c) = period e) cs)) \<and>
      eurPrincipal e = sum_list (map principal
        (filter (\<lambda>c. cf_currency c = EUR \<and> periodKey pt (cf_date c) = period e) cs)) \<and>
      eurInterest e = sum_list (map interest
        (filter (\<lambda>c. cf_currency c = EUR \<and> periodKey pt (cf_date c) = period e) cs)) \<and>
      eurTotal e = sum_list (map total
        (filter (\<lambda>c. cf_currency c = EUR \<and> periodKey pt (cf_date c) = period e) cs)))"
proof -
  have u1: "sum_list (map usdPrincipal (aggregateCashFlows cs pt)) =
     sum_list (map principal (filter (\<lambda>c. cf_currency c = USD) cs))"
    by (rule aggregate_sum) (simp_all add: addToPeriod_def emptyPeriod_def)
  have u2: "sum_list (map usdInterest (aggregateCashFlows cs pt)) =
     sum_list (map interest (filter (\<lambda>c. cf_currency c = USD) cs))"
    by (rule aggregate_sum) (simp_all add: addToPeriod_def emptyPeriod_def)
  have u3: "sum_list (map usdTotal (aggregateCashFlows cs pt)) =
     sum_list (map total (filter (\<lambda>c. cf_currency c = USD) cs))"
    by (rule aggregate_sum) (simp_all add: addToPeriod_def emptyPeriod_def)
  have e1: "sum_list (map eurPrincipal (aggregateCashFlows cs pt)) =
     sum_list (map principal (filter (\<lambda>c. cf_currency c = EUR) cs))"
    by (rule aggregate_sum) (simp_all add: addToPeriod_def emptyPeriod_def Currency_not_USD)
  have e2: "sum_list (map eurInterest (aggregateCashFlows cs pt)) =
     sum_list (map interest (filter (\<lambda>c. cf_currency c = EUR) cs))"
    by (rule aggregate_sum) (simp_all add: addToPeriod_def emptyPeriod_def Currency_not_USD)
  have e3: "sum_list (map eurTotal (aggregateCashFlows cs pt)) =
     sum_list (map total (filter (\<lambda>c. cf_currency c = EUR) cs))"
    by (rule aggregate_sum) (simp_all add: addToPeriod_def emptyPeriod_def Currency_not_USD)
  have b: "\<forall>e\<in>set (aggregateCashFlows cs pt).
      usdPrincipal e = sum_list (map principal
        (filter (\<lambda>c. cf_currency c = USD \<and> periodKey pt (cf_date c) = period e) cs)) \<and>
      usdInterest e = sum_list (map interest
        (filter (\<lambda>c. cf_currency c = USD \<and> periodKey pt (cf_date c) = period e) cs)) \<and>
      usdTotal e = sum_list (map total
        (filter (\<lambda>c. cf_currency c = USD \<and> periodKey pt (cf_date c) = period e) cs)) \<and>
      eurPrincipal e = sum_list (map principal
        (filter (\<lambda>c. cf_currency c = EUR \<and> periodKey pt (cf_date c) = period e) cs)) \<and>
      eurInterest e = sum_list (map interest
        (filter (\<lambda>c. cf_currency c = EUR \<and> periodKey pt (cf_date c) = period e) cs)) \<and>
      eurTotal e = sum_list (map total
        (filter (\<lambda>c. cf_currency c = EUR \<and> periodKey pt (cf_date c) = period e) cs))"
  proof
    fix e assume "e \<in> set (aggregateCashFlows cs pt)"
    then have "e = periodTotals pt (period e) cs" by (rule aggregated_entries)
    then have "usdPrincipal e = usdPrincipal (periodTotals pt (period e) cs)"
      "usdInterest e = usdInterest (periodTotals pt (period e) cs)"
      "usdTotal e = usdTotal (periodTotals pt (period e) cs)"
      "eurPrincipal e = eurPrincipal (periodTotals pt (period e) cs)"
      "eurInterest e = eurInterest (periodTotals pt (period e) cs)"
      "eurTotal e = eurTotal (periodTotals pt (period e) cs)"
      by simp_all
    then show "usdPrincipal e = sum_list (map principal
        (filter (\<lambda>c. cf_currency c = USD \<and> periodKey pt (cf_date c) = period e) cs)) \<and>
      usdInterest e = sum_list (map interest
        (filter (\<lambda>c. cf_currency c = USD \<and> periodKey pt (cf_date c) = period e) cs)) \<and>
      usdTotal e = sum_list (map total
        (filter (\<lambda>c. cf_currency c = USD \<and> periodKey pt (cf_date c) = period e) cs)) \<and>
      eurPrincipal e = sum_list (map principal
        (filter (\<lambda>c. cf_currency c = EUR \<and> periodKey pt (cf_date c) = period e) cs)) \<and>
      eurInterest e = sum_list (map interest
        (filter (\<lambda>c. cf_currency c = EUR \<and> periodKey pt (cf_date c) = period e) cs)) \<and>
      eurTotal e = sum_list (map total
        (filter (\<lambda>c. cf_currency c = EUR \<and> periodKey pt (cf_date c) = period e) cs))"
      by (simp only: periodTotals_def AggregatedCashFlow.simps)
  qed
  show ?thesis using u1 u2 u3 e1 e2 e3 aggregated_periods[of cs pt] b by blast
qed

theorem aggregateCashFlows_conserves_amounts_witness:
  "\<lparr>period = ''2023'', usdPrincipal = 40, usdInterest = 8, usdTotal = 48,
     eurPrincipal = 10, eurInterest = 1, eurTotal = 11\<rparr>
     \<in> set (aggregateCashFlows sampleFlows Year) \<and>
   sum_list (map total
     (filter (\<lambda>c. cf_currency c = USD \<and> periodKey Year (cf_date c) = ''2023'') sampleFlows)) = 48 \<and>
   sum_list (map total
     (filter (\<lambda>c. cf_currency c = EUR \<and> periodKey Year (cf_date c) = ''2023'') sampleFlows)) = 11 \<and>
   sum_list (map usdTotal (aggregateCashFlows sampleFlows Year)) = 52"
proof -
  let ?e = "\<lparr>period = ''2023'', usdPrincipal = 40, usdInterest = 8, usdTotal = 48,
     eurPrincipal = 10, eurInterest = 1, eurTotal = 11\<rparr>"
  have mem: "?e \<in> set (aggregateCashFlows sampleFlows Year)" by code_simp
  note all = aggregateCashFlows_conserves_amounts[of sampleFlows Year]
  note per = all[THEN conjunct2, THEN conjunct2, THEN conjunct2, THEN conjunct2, THEN conjunct2,
      THEN conjunct2, THEN conjunct2, THEN conjunct2, THEN bspec, OF mem]
  have a: "sum_list (map total
     (filter (\<lambda>c. cf_currency c = USD \<and> periodKey Year (cf_date c) = ''2023'') sampleFlows)) = 48"
    using per by simp
  have b: "sum_list (map total
     (filter (\<lambda>c. cf_currency c = EUR \<and> periodKey Year (cf_date c) = ''2023'') sampleFlows)) = 11"
    using per by simp
  have "sum_list (map total (filter (\<lambda>c. cf_currency c = USD) sampleFlows)) = 52"
    by code_simp
  then have c: "sum_list (map usdTotal (aggregateCashFlows sampleFlows Year)) = 52"
    using all by simp
  show ?thesis using mem a b c by blast
qed

section \<open>Properties of the present value\<close>

lemma foldl_sum_filter:
  fixes g :: "'a \<Rightarrow> real"
  shows "foldl (\<lambda>acc x. if Q x then acc else acc + g x) a xs =
         a + sum_list (map g (filter (\<lambda>x. \<not> Q x) xs))"
  by (induction xs arbitrary: a) simp_all

text \<open>
  Claim C7.  The present value is the sum, over the flows dated on or after the reference
  date, of the flow's total (divided by \<open>usdToEurRate\<close> for a flow in EUR) times
  \<open>(1 + discountRate)\<close> to the power \<open>- yearsFraction\<close>, where \<open>yearsFraction\<close> is the
  time from the reference date to the flow's date over \<open>365.25\<close> days; flows dated before
  the reference date do not count.  With discount rate \<open>0\<close> and exchange rate \<open>1\<close> it is
  the plain sum of the totals of the flows dated on or after the reference date.
\<close>

theorem calculatePresentValue_discounted_sum:
  "calculatePresentValue cashFlows discountRate referenceDate usdToEurRate =
     sum_list (map (\<lambda>c. (if cf_currency c = EUR then total c / usdToEurRate else total c) *
                          (1 + discountRate) powr
                            (- (real_of_int (cf_date c - referenceDate) /
                                (1000 * 60 * 60 * 24 * 365.25))))
                 (filter (\<lambda>c. referenceDate \<le> cf_date c) cashFlows)) \<and>
   calculatePresentValue cashFlows 0 referenceDate 1 =
     sum_list (map total (filter (\<lambda>c. referenceDate \<le> cf_date c) cashFlows))"
proof -
  have general: "\<And>r fx. calculatePresentValue cashFlows r referenceDate fx =
     sum_list (map (\<lambda>c. (if cf_currency c = EUR then total c / fx else total c) *
                          (1 + r) powr
                            (- (real_of_int (cf_date c - referenceDate) /
                                (1000 * 60 * 60 * 24 * 365.25))))
                 (filter (\<lambda>c. referenceDate \<le> cf_date c) cashFlows))"
    unfolding calculatePresentValue_def Let_def
    by (simp add: foldl_sum_filter not_less)
  have "calculatePresentValue cashFlows 0 referenceDate 1 =
     sum_list (map total (filter (\<lambda>c. referenceDate \<le> cf_date c) cashFlows))"
    unfolding general by (simp cong: if_cong)
  then show ?thesis using general by blast
qed


theorem calculatePresentValue_discounted_sum_witness:
  "calculatePresentValue sampleFlows 0 (createDate 2023 7 1) 1 = 58"
proof -
  have "sum_list (map total (filter (\<lambda>c. createDate 2023 7 1 \<le> cf_date c) sampleFlows)) = 58"
    by code_simp
  then show ?thesis
    using calculatePresentValue_discounted_sum[of sampleFlows 0 "createDate 2023 7 1" 1,
        THEN conjunct2]
    by (simp only:)
qed

section \<open>Properties of the cash flows of several bonds\<close>

text \<open>The amount requested for a bond: \<open>initialPrincipals[bond.id] || 0\<close>.\<close>

definition requestedAmount :: "(string \<rightharpoonup> real) \<Rightarrow> Bond \<Rightarrow> real" where
  "requestedAmount initialPrincipals bond =
     (case initialPrincipals (bond_id bond) of Some amount \<Rightarrow> amount | None \<Rightarrow> 0)"

lemma allBondsLoop_Cons:
  "allBondsLoop tz m s e (bond # rest) acc =
     (if requestedAmount m bond > 0 then
        (case calculateCashFlows tz bond (requestedAmount m bond) s e of
           Inl err \<Rightarrow> Inl err
         | Inr fs \<Rightarrow> allBondsLoop tz m s e rest (acc @ fs))
      else allBondsLoop tz m s e rest acc)"
  by (simp add: requestedAmount_def Let_def)

declare allBondsLoop.simps(2) [simp del]

lemma allBondsLoop_succeeds:
  "\<forall>b\<in>set (filter (\<lambda>b. requestedAmount m b > 0) bonds).
      calculateCashFlows tz b (requestedAmount m b) s e = Inr (F b) \<Longrightarrow>
   allBondsLoop tz m s e bonds acc =
     Inr (acc @ concat (map F (filter (\<lambda>b. requestedAmount m b > 0) bonds)))"
  by (induction bonds arbitrary: acc) (simp_all add: allBondsLoop_Cons)

lemma allBondsLoop_cong:
  "\<forall>b\<in>set bonds. (requestedAmount m1 b > 0 \<or> requestedAmount m2 b > 0) \<longrightarrow>
      requestedAmount m1 b = requestedAmount m2 b \<Longrightarrow>
   allBondsLoop tz m1 s e bonds acc = allBondsLoop tz m2 s e bonds acc"
proof (induction bonds arbitrary: acc)
  case Nil
  then show ?case by simp
next
  case (Cons b bonds)
  have rest: "\<And>acc. allBondsLoop tz m1 s e bonds acc = allBondsLoop tz m2 s e bonds acc"
    using Cons by simp
  show ?case
  proof (cases "requestedAmount m1 b > 0 \<or> requestedAmount m2 b > 0")
    case True
    then have "requestedAmount m1 b = requestedAmount m2 b" using Cons.prems by auto
    then show ?thesis by (simp add: allBondsLoop_Cons rest split: sum.splits)
  next
    case False
    then show ?thesis by (simp add: allBondsLoop_Cons rest)
  qed
qed

lemma requestedAmount_agree:
  assumes "\<forall>v. 0 < v \<longrightarrow> (m1 (bond_id b) = Some v) = (m2 (bond_id b) = Some v)"
  shows "(requestedAmount m1 b > 0 \<or> requestedAmount m2 b > 0) \<longrightarrow>
         requestedAmount m1 b = requestedAmount m2 b"
proof
  assume "requestedAmount m1 b > 0 \<or> requestedAmount m2 b > 0"
  then show "requestedAmount m1 b = requestedAmount m2 b"
  proof
    assume p: "requestedAmount m1 b > 0"
    then obtain v where v: "m1 (bond_id b) = Some v" "0 < v"
      by (auto simp: requestedAmount_def split: option.splits)
    then have "m2 (bond_id b) = Some v" using assms by blast
    then show ?thesis using v by (simp add: requestedAmount_def)
  next
    assume p: "requestedAmount m2 b > 0"
    then obtain v where v: "m2 (bond_id b) = Some v" "0 < v"
      by (auto simp: requestedAmount_def split: option.splits)
    then have "m1 (bond_id b) = Some v" using assms by blast
    then show ?thesis using v by (simp add: requestedAmount_def)
  qed
qed

lemma paymentLoop_bondId:
  assumes "paymentLoop bond P ds out lastD [] = Inr flows" "f \<in> set flows"
  shows "bondId f = bond_id bond"
proof -
  from paymentLoop_Inr[OF assms(1)] have len: "length flows = length ds"
    and ix: "\<forall>i<length ds. \<exists>r. flows ! i = paymentOn bond P (out - sum_list (map principal (take i flows)))
                   ((lastD # ds) ! i) (ds ! i) r"
    by auto
  from assms(2) obtain i where "i < length flows" "flows ! i = f" by (auto simp: in_set_conv_nth)
  with ix len obtain r x y where "f = paymentOn bond P x y (ds ! i) r" by metis
  then show ?thesis by (simp add: paymentOn_def)
qed

lemma calculateCashFlows_bondId:
  "calculateCashFlows tz bond P s e = Inr flows \<Longrightarrow> f \<in> set flows \<Longrightarrow> bondId f = bond_id bond"
  by (auto simp: calculateCashFlows_def split: sum.splits dest: paymentLoop_bondId)

definition sampleAmounts :: "string \<rightharpoonup> real" where
  "sampleAmounts =
     [''USD-STEP-UP-2030'' \<mapsto> 1000, ''EUR-STEP-UP-2030'' \<mapsto> 500, ''USD-STEP-UP-2035'' \<mapsto> 0]"

lemma Inr_projr: "\<not> isl x \<Longrightarrow> x = Inr (projr x)"
  by (cases x) simp_all

text \<open>
  Claim C8.  When the generator returns \<open>F b\<close> for every known bond \<open>b\<close> with a positive
  requested amount, \<open>calculateAllCashFlows\<close> returns the concatenation of these results,
  in the order of the bonds, sorted stably by payment date: the output is in ascending
  order of date and has exactly the rows of the concatenation.  Every row belongs to a
  known bond whose requested amount is positive, so a bond with a zero or missing amount
  has no rows.
\<close>

theorem calculateAllCashFlows_concatenates:
  assumes "\<forall>b\<in>set (filter (\<lambda>b. requestedAmount m b > 0) getAllBonds).
       calculateCashFlows tz b (requestedAmount m b) s e = Inr (F b)"
  shows "calculateAllCashFlows tz m s e =
      Inr (sort_key cf_date (concat (map F (filter (\<lambda>b. requestedAmount m b > 0) getAllBonds)))) \<and>
    sorted (map cf_date
      (sort_key cf_date (concat (map F (filter (\<lambda>b. requestedAmount m b > 0) getAllBonds))))) \<and>
    mset (sort_key cf_date (concat (map F (filter (\<lambda>b. requestedAmount m b > 0) getAllBonds))))
      = mset (concat (map F (filter (\<lambda>b. requestedAmount m b > 0) getAllBonds))) \<and>
    (\<forall>f\<in>set (sort_key cf_date
                 (concat (map F (filter (\<lambda>b. requestedAmount m b > 0) getAllBonds)))).
       \<exists>b\<in>set getAllBonds. bondId f = bond_id b \<and>
          (\<exists>v. m (bond_id b) = Some v \<and> 0 < v))"
proof (intro conjI)
  let ?sel = "filter (\<lambda>b. requestedAmount m b > 0) getAllBonds"
  note ok = assms
  show "calculateAllCashFlows tz m s e = Inr (sort_key cf_date (concat (map F ?sel)))"
    using allBondsLoop_succeeds[OF ok, of "[]"] by (simp add: calculateAllCashFlows_def)
  show "sorted (map cf_date (sort_key cf_date (concat (map F ?sel))))"
    by (rule sorted_sort_key)
  show "mset (sort_key cf_date (concat (map F ?sel))) = mset (concat (map F ?sel))"
    by (rule mset_sort)
  show "\<forall>f\<in>set (sort_key cf_date (concat (map F ?sel))).
       \<exists>b\<in>set getAllBonds. bondId f = bond_id b \<and> (\<exists>v. m (bond_id b) = Some v \<and> 0 < v)"
  proof
    fix f assume "f \<in> set (sort_key cf_date (concat (map F ?sel)))"
    then obtain b where b: "b \<in> set ?sel" "f \<in> set (F b)" by auto
    then have "calculateCashFlows tz b (requestedAmount m b) s e = Inr (F b)" using ok by blast
    then have "bondId f = bond_id b" using b(2) by (rule calculateCashFlows_bondId)
    moreover have "\<exists>v. m (bond_id b) = Some v \<and> 0 < v"
      using b(1) by (auto simp: requestedAmount_def split: option.splits)
    ultimately show "\<exists>b\<in>set getAllBonds. bondId f = bond_id b \<and> (\<exists>v. m (bond_id b) = Some v \<and> 0 < v)"
      using b(1) by auto
  qed
qed

theorem calculateAllCashFlows_concatenates_witness:
  "filter (\<lambda>b. requestedAmount sampleAmounts b > 0) getAllBonds
     = [USD_STEP_UP_2030, EUR_STEP_UP_2030] \<and>
   calculateAllCashFlows 0 sampleAmounts (createDate 2024 1 1) (createDate 2024 12 31) =
     Inr (sort_key cf_date (concat (map
       (\<lambda>b. projr (calculateCashFlows 0 b (requestedAmount sampleAmounts b)
                     (createDate 2024 1 1) (createDate 2024 12 31)))
       (filter (\<lambda>b. requestedAmount sampleAmounts b > 0) getAllBonds)))) \<and>
   map bondId (projr (calculateAllCashFlows 0 sampleAmounts (createDate 2024 1 1) (createDate 2024 12 31)))
     = [''USD-STEP-UP-2030'', ''EUR-STEP-UP-2030'', ''USD-STEP-UP-2030'', ''EUR-STEP-UP-2030'']"
proof -
  let ?s = "createDate 2024 1 1" and ?e = "createDate 2024 12 31"
  let ?F = "\<lambda>b. projr (calculateCashFlows 0 b (requestedAmount sampleAmounts b) ?s ?e)"
  have sel: "filter (\<lambda>b. requestedAmount sampleAmounts b > 0) getAllBonds
     = [USD_STEP_UP_2030, EUR_STEP_UP_2030]"
    by code_simp
  have "\<forall>b\<in>set (filter (\<lambda>b. requestedAmount sampleAmounts b > 0) getAllBonds).
      \<not> isl (calculateCashFlows 0 b (requestedAmount sampleAmounts b) ?s ?e)"
    by code_simp
  then have ok: "\<forall>b\<in>set (filter (\<lambda>b. requestedAmount sampleAmounts b > 0) getAllBonds).
      calculateCashFlows 0 b (requestedAmount sampleAmounts b) ?s ?e = Inr (?F b)"
    using Inr_projr by blast
  have c1: "calculateAllCashFlows 0 sampleAmounts ?s ?e =
     Inr (sort_key cf_date (concat (map ?F
       (filter (\<lambda>b. requestedAmount sampleAmounts b > 0) getAllBonds))))"
    by (rule calculateAllCashFlows_concatenates[OF ok, THEN conjunct1])
  have c2: "map bondId (projr (calculateAllCashFlows 0 sampleAmounts ?s ?e))
     = [''USD-STEP-UP-2030'', ''EUR-STEP-UP-2030'', ''USD-STEP-UP-2030'', ''EUR-STEP-UP-2030'']"
    by code_simp
  show ?thesis using sel c1 c2 by blast
qed

text \<open>
  Claim C10.  Two amount mappings that give the same positive amounts to the known bonds
  yield the same result of \<open>calculateAllCashFlows\<close>, whatever else they hold.  An entry
  under an unknown identifier changes nothing, and an entry with a zero or negative
  amount is as good as no entry: neither raises an error.
\<close>

theorem calculateAllCashFlows_positive_known_only:
  "((\<forall>b\<in>set getAllBonds. \<forall>v. 0 < v \<longrightarrow>
        (m1 (bond_id b) = Some v) = (m2 (bond_id b) = Some v)) \<longrightarrow>
      calculateAllCashFlows tz m1 s e = calculateAllCashFlows tz m2 s e) \<and>
   (k \<notin> bond_id ` set getAllBonds \<longrightarrow>
      calculateAllCashFlows tz (m(k \<mapsto> a)) s e = calculateAllCashFlows tz m s e) \<and>
   (a \<le> 0 \<longrightarrow>
      calculateAllCashFlows tz (m(k \<mapsto> a)) s e = calculateAllCashFlows tz (m(k := None)) s e)"
proof -
  have main: "\<And>m1 m2. \<forall>b\<in>set getAllBonds. \<forall>v. 0 < v \<longrightarrow>
        (m1 (bond_id b) = Some v) = (m2 (bond_id b) = Some v) \<Longrightarrow>
      calculateAllCashFlows tz m1 s e = calculateAllCashFlows tz m2 s e"
  proof -
    fix m1 m2 :: "string \<rightharpoonup> real"
    assume h: "\<forall>b\<in>set getAllBonds. \<forall>v. 0 < v \<longrightarrow>
        (m1 (bond_id b) = Some v) = (m2 (bond_id b) = Some v)"
    have "\<forall>b\<in>set getAllBonds. (requestedAmount m1 b > 0 \<or> requestedAmount m2 b > 0) \<longrightarrow>
      requestedAmount m1 b = requestedAmount m2 b"
      using h requestedAmount_agree by blast
    then have "allBondsLoop tz m1 s e getAllBonds [] = allBondsLoop tz m2 s e getAllBonds []"
      by (rule allBondsLoop_cong)
    then show "calculateAllCashFlows tz m1 s e = calculateAllCashFlows tz m2 s e"
      by (simp add: calculateAllCashFlows_def)
  qed
  have unknown: "k \<notin> bond_id ` set getAllBonds \<longrightarrow>
      calculateAllCashFlows tz (m(k \<mapsto> a)) s e = calculateAllCashFlows tz m s e"
  proof
    assume "k \<notin> bond_id ` set getAllBonds"
    then have "\<forall>b\<in>set getAllBonds. \<forall>v. 0 < v \<longrightarrow>
        ((m(k \<mapsto> a)) (bond_id b) = Some v) = (m (bond_id b) = Some v)"
      by auto
    then show "calculateAllCashFlows tz (m(k \<mapsto> a)) s e = calculateAllCashFlows tz m s e"
      by (rule main)
  qed
  have nonpos: "a \<le> 0 \<longrightarrow>
      calculateAllCashFlows tz (m(k \<mapsto> a)) s e = calculateAllCashFlows tz (m(k := None)) s e"
  proof
    assume "a \<le> 0"
    then have "\<forall>b\<in>set getAllBonds. \<forall>v. 0 < v \<longrightarrow>
        ((m(k \<mapsto> a)) (bond_id b) = Some v) = ((m(k := None)) (bond_id b) = Some v)"
      by auto
    then show "calculateAllCashFlows tz (m(k \<mapsto> a)) s e = calculateAllCashFlows tz (m(k := None)) s e"
      by (rule main)
  qed
  show ?thesis using main unknown nonpos by blast
qed

theorem calculateAllCashFlows_positive_known_only_witness:
  "calculateAllCashFlows 0 (sampleAmounts(''NO-SUCH-BOND'' \<mapsto> 7, ''USD-STEP-UP-2038'' \<mapsto> - 3))
       (createDate 2024 1 1) (createDate 2024 12 31)
     = calculateAllCashFlows 0 sampleAmounts (createDate 2024 1 1) (createDate 2024 12 31) \<and>
   ''NO-SUCH-BOND'' \<notin> bond_id ` set getAllBonds \<and>
   calculateAllCashFlows 0 (sampleAmounts(''NO-SUCH-BOND'' \<mapsto> 7))
       (createDate 2024 1 1) (createDate 2024 12 31)
     = calculateAllCashFlows 0 sampleAmounts (createDate 2024 1 1) (createDate 2024 12 31) \<and>
   calculateAllCashFlows 0 (sampleAmounts(''USD-STEP-UP-2038'' \<mapsto> - 3))
       (createDate 2024 1 1) (createDate 2024 12 31)
     = calculateAllCashFlows 0 (sampleAmounts(''USD-STEP-UP-2038'' := None))
         (createDate 2024 1 1) (createDate 2024 12 31)"
proof -
  let ?s = "createDate 2024 1 1" and ?e = "createDate 2024 12 31"
  let ?m1 = "sampleAmounts(''NO-SUCH-BOND'' \<mapsto> 7, ''USD-STEP-UP-2038'' \<mapsto> - 3)"
  have ids: "map bond_id getAllBonds =
      [''USD-STEP-UP-2030'', ''USD-STEP-UP-2035'', ''USD-STEP-UP-2038'', ''USD-STEP-UP-2041'',
       ''USD-STEP-UP-2046'', ''EUR-STEP-UP-2030'']"
    by code_simp
  have "\<forall>k\<in>set (map bond_id getAllBonds). \<forall>v. 0 < v \<longrightarrow>
        (?m1 k = Some v) = (sampleAmounts k = Some v)"
    unfolding ids by (simp add: sampleAmounts_def)
  then have h: "\<forall>b\<in>set getAllBonds. \<forall>v. 0 < v \<longrightarrow>
        (?m1 (bond_id b) = Some v) = (sampleAmounts (bond_id b) = Some v)"
    by simp
  have c1: "calculateAllCashFlows 0 ?m1 ?s ?e = calculateAllCashFlows 0 sampleAmounts ?s ?e"
    by (rule calculateAllCashFlows_positive_known_only[of ?m1 sampleAmounts 0 ?s ?e,
          THEN conjunct1, THEN mp, OF h])
  have "''NO-SUCH-BOND'' \<notin> set (map bond_id getAllBonds)"
    unfolding ids by simp
  then have u: "''NO-SUCH-BOND'' \<notin> bond_id ` set getAllBonds" by simp
  have c2: "calculateAllCashFlows 0 (sampleAmounts(''NO-SUCH-BOND'' \<mapsto> 7)) ?s ?e
      = calculateAllCashFlows 0 sampleAmounts ?s ?e"
    by (rule calculateAllCashFlows_positive_known_only[where ?m1.0 = sampleAmounts and ?m2.0 = sampleAmounts,
          THEN conjunct2, THEN conjunct1, THEN mp, OF u])
  have n: "(- 3 :: real) \<le> 0" by simp
  have c3: "calculateAllCashFlows 0 (sampleAmounts(''USD-STEP-UP-2038'' \<mapsto> - 3)) ?s ?e
      = calculateAllCashFlows 0 (sampleAmounts(''USD-STEP-UP-2038'' := None)) ?s ?e"
    by (rule calculateAllCashFlows_positive_known_only[where ?m1.0 = sampleAmounts and ?m2.0 = sampleAmounts,
          THEN conjunct2, THEN conjunct2, THEN mp, OF n])
  show ?thesis using c1 u c2 c3 by blast
qed

section \<open>The scheduled payment dates\<close>

text \<open>
  The scheduled dates as the specification words them, to be compared with
  \<open>sortedDates\<close>.  A calendar month is numbered by \<open>12 * year + month\<close> (months from
  \<open>0\<close>); the months between two instants are those from the month of the first to the
  month of the second, none when the first instant is after the second; the candidate
  of a month is its day 9 at midnight UTC.
\<close>

definition monthIndex :: "int \<Rightarrow> int" where
  "monthIndex t = 12 * getUTCFullYear t + getUTCMonth t"

definition monthsBetween :: "int \<Rightarrow> int \<Rightarrow> int list" where
  "monthsBetween a b = (if a \<le> b then [monthIndex a..monthIndex b] else [])"

definition dayNine :: "int \<Rightarrow> int" where
  "dayNine k = MakeDay (k div 12) (k mod 12) 9 * msPerDay"

definition specInterestDates :: "Bond \<Rightarrow> int \<Rightarrow> int \<Rightarrow> int list" where
  "specInterestDates bond startD endD =
     filter (\<lambda>d. startD \<le> d \<and> d \<le> endD)
       (map dayNine
          (filter (\<lambda>k. k mod 12 + 1 \<in> set (interestPaymentMonths bond))
             (monthsBetween (max (issueDate bond) startD)
                (min endD (date (last (amortizationSchedule bond)) + msPerDay)))))"

definition specAmortizationDates :: "Bond \<Rightarrow> int \<Rightarrow> int \<Rightarrow> int list" where
  "specAmortizationDates bond startD endD =
     filter (\<lambda>d. startD \<le> d \<and> d \<le> endD) (map date (amortizationSchedule bond))"

definition specScheduledDates :: "Bond \<Rightarrow> int \<Rightarrow> int \<Rightarrow> int list" where
  "specScheduledDates bond startD endD =
     sort (remdups (specInterestDates bond startD endD @ specAmortizationDates bond startD endD))"

subsection \<open>Months as intervals of days\<close>

definition monthStart :: "int \<Rightarrow> int" where
  "monthStart k = MakeDay (k div 12) (k mod 12) 1"

lemma YearFromDay_unique:
  assumes "DayFromYear y \<le> d" "d < DayFromYear (y + 1)"
  shows "YearFromDay d = y"
proof (rule ccontr)
  assume ne: "YearFromDay d \<noteq> y"
  note b = YearFromDay_bounds[of d]
  show False
  proof (cases "YearFromDay d < y")
    case True
    then have "DayFromYear (YearFromDay d + 1) \<le> DayFromYear y" by (intro DayFromYear_mono) simp
    then show False using b assms by linarith
  next
    case False
    then have "DayFromYear (y + 1) \<le> DayFromYear (YearFromDay d)" using ne by (intro DayFromYear_mono) simp
    then show False using b assms by linarith
  qed
qed

lemma InLeapYear_cases: "InLeapYear y = 0 \<or> InLeapYear y = 1"
  by (simp add: InLeapYear_def)

lemma MonthFromDayWithinYear_lower:
  "0 \<le> d \<Longrightarrow> daysBeforeMonth (MonthFromDayWithinYear d leap) leap \<le> d"
  by (simp add: MonthFromDayWithinYear_def daysBeforeMonth_def)

lemma monthStart_split:
  assumes "0 \<le> m" "m \<le> 11"
  shows "monthStart (12 * y + m) = DayFromYear y + daysBeforeMonth m (InLeapYear y)"
proof -
  have "(12 * y + m) div 12 = y" "(12 * y + m) mod 12 = m" using assms by simp_all
  then show ?thesis by (simp add: monthStart_def MakeDay_def)
qed

lemma monthStart_year: "monthStart (12 * y + 12) = DayFromYear (y + 1)"
  using monthStart_split[of 0 "y + 1"] by (simp add: daysBeforeMonth_def algebra_simps)

lemma monthStart_step:
  "monthStart k + 28 \<le> monthStart (k + 1)"
proof -
  define y where "y = k div 12"
  define m where "m = k mod 12"
  have k: "k = 12 * y + m" and m: "0 \<le> m" "m \<le> 11" by (simp_all add: y_def m_def)
  have s: "monthStart k = DayFromYear y + daysBeforeMonth m (InLeapYear y)"
    unfolding k using m by (rule monthStart_split)
  show ?thesis
  proof (cases "m = 11")
    case True
    then have "monthStart (k + 1) = DayFromYear (y + 1)"
      using monthStart_year[of y] by (simp add: k algebra_simps)
    then show ?thesis
      using s True DayFromYear_Suc[of y] InLeapYear_range(2)[of y]
      by (simp add: daysBeforeMonth_def)
  next
    case False
    then have m1: "0 \<le> m + 1" "m + 1 \<le> 11" using m by simp_all
    have "monthStart (k + 1) = DayFromYear y + daysBeforeMonth (m + 1) (InLeapYear y)"
      using monthStart_split[OF m1, of y] by (simp add: k algebra_simps)
    moreover have "m = 0 \<or> m = 1 \<or> m = 2 \<or> m = 3 \<or> m = 4 \<or> m = 5 \<or> m = 6 \<or> m = 7 \<or>
        m = 8 \<or> m = 9 \<or> m = 10"
      using m False by presburger
    then have "daysBeforeMonth m (InLeapYear y) + 28 \<le> daysBeforeMonth (m + 1) (InLeapYear y)"
      using InLeapYear_range(1)[of y] by (elim disjE) (simp_all add: daysBeforeMonth_def)
    ultimately show ?thesis using s by linarith
  qed
qed

lemma monthStart_mono_aux: "monthStart k \<le> monthStart (k + int n)"
proof (induction n)
  case 0
  then show ?case by simp
next
  case (Suc n)
  have "monthStart (k + int n) \<le> monthStart (k + int n + 1)"
    using monthStart_step[of "k + int n"] by linarith
  then show ?case using Suc by (simp add: algebra_simps)
qed

lemma monthStart_mono: "k \<le> k' \<Longrightarrow> monthStart k \<le> monthStart k'"
  using monthStart_mono_aux[of k "nat (k' - k)"] by simp

lemma monthStart_strict: "k < k' \<Longrightarrow> monthStart k < monthStart k'"
  using monthStart_step[of k] monthStart_mono[of "k + 1" k'] by linarith

definition monthOfDay :: "int \<Rightarrow> int" where
  "monthOfDay d =
     12 * YearFromDay d +
     MonthFromDayWithinYear (d - DayFromYear (YearFromDay d)) (InLeapYear (YearFromDay d))"

lemma monthOfDay_bounds:
  "monthStart (monthOfDay d) \<le> d \<and> d < monthStart (monthOfDay d + 1)"
proof -
  define Y where "Y = YearFromDay d"
  define L where "L = InLeapYear Y"
  define M where "M = MonthFromDayWithinYear (d - DayFromYear Y) L"
  have yb: "DayFromYear Y \<le> d" "d < DayFromYear (Y + 1)"
    using YearFromDay_bounds[of d] by (simp_all add: Y_def)
  have Mr: "0 \<le> M" "M \<le> 11"
    using MonthFromDayWithinYear_range[of "d - DayFromYear Y" L] by (simp_all add: M_def)
  have k: "monthOfDay d = 12 * Y + M" by (simp add: monthOfDay_def Y_def L_def M_def)
  have lo: "monthStart (12 * Y + M) \<le> d"
    using monthStart_split[OF Mr, of Y] MonthFromDayWithinYear_lower[of "d - DayFromYear Y" L] yb
    by (simp add: M_def L_def)
  have hi: "d < monthStart (12 * Y + M + 1)"
  proof (cases "M = 11")
    case True
    then show ?thesis using monthStart_year[of Y] yb by (simp add: algebra_simps)
  next
    case False
    then have m1: "0 \<le> M + 1" "M + 1 \<le> 11" "M < 11" using Mr by simp_all
    have "monthStart (12 * Y + M + 1) = DayFromYear Y + daysBeforeMonth (M + 1) L"
      using monthStart_split[OF m1(1,2), of Y] by (simp add: L_def algebra_simps)
    moreover have "d - DayFromYear Y < daysBeforeMonth (M + 1) L"
      using MonthFromDayWithinYear_next[of "d - DayFromYear Y" L] m1(3) by (simp add: M_def)
    ultimately show ?thesis by linarith
  qed
  show ?thesis using lo hi by (simp add: k)
qed

lemma monthOfDay_unique:
  assumes "monthStart k \<le> d" "d < monthStart (k + 1)"
  shows "monthOfDay d = k"
proof (rule ccontr)
  assume ne: "monthOfDay d \<noteq> k"
  note b = monthOfDay_bounds[of d]
  show False
  proof (cases "monthOfDay d < k")
    case True
    then have "monthStart (monthOfDay d + 1) \<le> monthStart k" by (intro monthStart_mono) simp
    then show False using b assms by linarith
  next
    case False
    then have "monthStart (k + 1) \<le> monthStart (monthOfDay d)" using ne by (intro monthStart_mono) simp
    then show False using b assms by linarith
  qed
qed

lemma monthOfDay_mono: "d \<le> d' \<Longrightarrow> monthOfDay d \<le> monthOfDay d'"
proof (rule ccontr)
  assume le: "d \<le> d'" and "\<not> monthOfDay d \<le> monthOfDay d'"
  then have "monthOfDay d' + 1 \<le> monthOfDay d" by simp
  then have "monthStart (monthOfDay d' + 1) \<le> monthStart (monthOfDay d)" by (rule monthStart_mono)
  then show False using monthOfDay_bounds[of d] monthOfDay_bounds[of d'] le by linarith
qed

lemma monthIndex_monthOfDay: "monthIndex t = monthOfDay (Day t)"
  by (simp add: monthIndex_def monthOfDay_def getUTCFullYear_def getUTCMonth_def
      YearFromTime_def MonthFromTime_def Let_def)

lemma getUTCMonth_monthIndex: "getUTCMonth t = monthIndex t mod 12"
proof -
  have "0 \<le> getUTCMonth t \<and> getUTCMonth t \<le> 11"
    unfolding getUTCMonth_def MonthFromTime_def Let_def
    by (rule MonthFromDayWithinYear_range)
  then show ?thesis by (simp add: monthIndex_def)
qed

lemma MakeDay_monthStart: "MakeDay y m 1 = monthStart (12 * y + m)"
proof -
  have "(12 * y + m) div 12 = y + m div 12" "(12 * y + m) mod 12 = m mod 12" by simp_all
  then show ?thesis by (simp add: monthStart_def MakeDay_def)
qed

lemma MakeDay_dayNine: "MakeDay y m 9 * msPerDay = dayNine (12 * y + m)"
proof -
  have "(12 * y + m) div 12 = y + m div 12" "(12 * y + m) mod 12 = m mod 12" by simp_all
  then show ?thesis by (simp add: dayNine_def MakeDay_def)
qed

lemma year_from_1970:
  assumes "0 \<le> t"
  shows "1970 \<le> getUTCFullYear t"
proof (rule ccontr)
  assume "\<not> 1970 \<le> getUTCFullYear t"
  then have "YearFromDay (Day t) + 1 \<le> 1970"
    by (simp add: getUTCFullYear_def YearFromTime_def)
  then have "DayFromYear (YearFromDay (Day t) + 1) \<le> DayFromYear 1970" by (rule DayFromYear_mono)
  moreover have "DayFromYear 1970 = 0" by (simp add: DayFromYear_def)
  moreover have "0 \<le> Day t" using assms by (simp add: Day_def msPerDay_def pos_imp_zdiv_nonneg_iff)
  ultimately show False using YearFromDay_bounds[of "Day t"] by linarith
qed

lemma DateUTC_next_month:
  assumes "0 \<le> t"
  shows "DateUTC (getUTCFullYear t) (getUTCMonth t + 1) 1 = monthStart (monthIndex t + 1) * msPerDay"
  using year_from_1970[OF assms]
  by (simp add: DateUTC_def MakeDay_monthStart monthIndex_def algebra_simps)

lemma DateUTC_day_nine:
  assumes "0 \<le> t"
  shows "DateUTC (getUTCFullYear t) (getUTCMonth t) 9 = dayNine (monthIndex t)"
  using year_from_1970[OF assms]
  by (simp add: DateUTC_def MakeDay_dayNine monthIndex_def)

lemma Day_times: "Day (d * msPerDay) = d"
  by (simp add: Day_def msPerDay_def)

lemma monthIndex_monthStart: "monthIndex (monthStart k * msPerDay) = k"
  unfolding monthIndex_monthOfDay Day_times
  by (rule monthOfDay_unique) (use monthStart_strict[of k "k + 1"] in simp_all)

lemma Day_mono: "a \<le> b \<Longrightarrow> Day a \<le> Day b"
  by (simp add: Day_def msPerDay_def zdiv_mono1)

lemma monthIndex_mono: "a \<le> b \<Longrightarrow> monthIndex a \<le> monthIndex b"
  unfolding monthIndex_monthOfDay by (intro monthOfDay_mono Day_mono)

lemma monthIndex_same:
  assumes "t \<le> l" "l < monthStart (monthIndex t + 1) * msPerDay"
  shows "monthIndex l = monthIndex t"
proof -
  have "Day l < monthStart (monthIndex t + 1)"
  proof (rule ccontr)
    assume "\<not> Day l < monthStart (monthIndex t + 1)"
    then have "monthStart (monthIndex t + 1) * msPerDay \<le> Day l * msPerDay"
      by (simp add: msPerDay_def)
    then show False using Day_bounds(1)[of l] assms(2) by linarith
  qed
  moreover have "monthStart (monthIndex t) \<le> Day l"
    using monthOfDay_bounds[of "Day t"] Day_mono[OF assms(1)]
    by (simp add: monthIndex_monthOfDay)
  ultimately show ?thesis
    unfolding monthIndex_monthOfDay[of l] monthIndex_monthOfDay[of t, symmetric]
    by (intro monthOfDay_unique) simp_all
qed

lemma monthsBetween_step:
  assumes "t \<le> l"
  shows "set (monthsBetween t l) =
         insert (monthIndex t) (set (monthsBetween (monthStart (monthIndex t + 1) * msPerDay) l))"
proof (cases "monthStart (monthIndex t + 1) * msPerDay \<le> l")
  case True
  have "monthIndex t \<le> monthIndex l" using assms by (rule monthIndex_mono)
  then show ?thesis using True assms
    by (auto simp: monthsBetween_def monthIndex_monthStart)
next
  case False
  then have "monthIndex l = monthIndex t" using assms by (intro monthIndex_same) simp_all
  then show ?thesis using False assms by (simp add: monthsBetween_def)
qed

lemma monthLoop_utc_set:
  "0 \<le> t \<Longrightarrow>
   set (monthLoop 0 bond s e l t acc) =
     set acc \<union> {d \<in> dayNine ` {k \<in> set (monthsBetween t l).
                                  k mod 12 + 1 \<in> set (interestPaymentMonths bond)}.
                s \<le> d \<and> d \<le> e}"
proof (induction "0::int" bond s e l t acc rule: monthLoop.induct)
  case (1 bond s e l t acc)
  show ?case
  proof (cases "t \<le> l")
    case False
    then show ?thesis by (subst monthLoop.simps) (simp add: monthsBetween_def)
  next
    case True
    let ?t' = "DateUTC (getUTCFullYear t) (getUTCMonth t + 1) 1"
    let ?acc' = "if getMonth 0 t + 1 \<in> set (interestPaymentMonths bond) then
             let paymentDate = DateUTC (getUTCFullYear t) (getUTCMonth t) 9
             in if paymentDate \<ge> s \<and> paymentDate \<le> e
                then setAdd paymentDate acc
                else acc
           else acc"
    have t': "?t' = monthStart (monthIndex t + 1) * msPerDay"
      using 1(2) by (rule DateUTC_next_month)
    have pos: "0 \<le> ?t'" using next_month_after[of t] 1(2) by linarith
    have rec: "monthLoop 0 bond s e l t acc = monthLoop 0 bond s e l ?t' ?acc'"
      using True by (subst monthLoop.simps) simp
    have ih: "set (monthLoop 0 bond s e l ?t' ?acc') =
      set ?acc' \<union> {d \<in> dayNine ` {k \<in> set (monthsBetween ?t' l).
                                  k mod 12 + 1 \<in> set (interestPaymentMonths bond)}.
                s \<le> d \<and> d \<le> e}"
      using 1(1)[OF True pos] .
    have acc': "set ?acc' = set acc \<union> {d \<in> dayNine ` {k \<in> {monthIndex t}.
                                  k mod 12 + 1 \<in> set (interestPaymentMonths bond)}.
                s \<le> d \<and> d \<le> e}"
      using DateUTC_day_nine[OF 1(2)]
      by (auto simp: getMonth_def getUTCMonth_monthIndex[unfolded getUTCMonth_def] Let_def set_setAdd)
    have mb: "set (monthsBetween t l) = insert (monthIndex t) (set (monthsBetween ?t' l))"
      unfolding t' using True by (rule monthsBetween_step)
    show ?thesis unfolding rec ih acc' mb by auto
  qed
qed

text \<open>
  On a host in UTC, and for dates from 1970 on, the scheduled dates of the code are those
  of the specification.
\<close>

lemma sortedDates_utc_spec:
  assumes "amortizationSchedule bond \<noteq> []" "0 \<le> max (issueDate bond) startD"
  shows "sortedDates 0 bond startD endD = Inr (specScheduledDates bond startD endD)"
proof -
  let ?l = "min (date (last (amortizationSchedule bond)) + 24 * 60 * 60 * 1000) endD"
  let ?xs = "addAmortizationDates bond startD endD
               (monthLoop 0 bond startD endD ?l (max (issueDate bond) startD) [])"
  have run: "sortedDates 0 bond startD endD = Inr (sort ?xs)"
    using assms(1) by (simp add: sortedDates_def lastElement_def Let_def)
  have l: "?l = min endD (date (last (amortizationSchedule bond)) + msPerDay)"
    "min (date (last (amortizationSchedule bond)) + 86400000) endD
       = min endD (date (last (amortizationSchedule bond)) + msPerDay)"
    by (simp_all add: msPerDay_def min.commute)
  have "distinct ?xs" by (intro addAmortizationDates_distinct monthLoop_distinct) simp
  then have d1: "distinct (sort ?xs)" "sorted (sort ?xs)" by simp_all
  have d2: "distinct (specScheduledDates bond startD endD)" "sorted (specScheduledDates bond startD endD)"
    by (simp_all add: specScheduledDates_def)
  have "set (sort ?xs) = set (specScheduledDates bond startD endD)"
    unfolding specScheduledDates_def specInterestDates_def specAmortizationDates_def
    by (simp add: addAmortizationDates_set monthLoop_utc_set[OF assms(2)] l) auto
  then have "sort ?xs = specScheduledDates bond startD endD"
    using d1 d2 by (intro sorted_distinct_set_unique) simp_all
  then show ?thesis using run by simp
qed

text \<open>
  Claim C2 fails on the code.  The month that decides whether a candidate is emitted is
  read with \<open>getMonth\<close>, in the local time of the host, while the walk and the
  candidate are computed in UTC.  On a host three hours behind UTC the first instant of
  a month lies in the previous local month: for the bond \<open>USD-STEP-UP-2030\<close> and the
  window from 2023-01-01 to 2024-12-31 the interest dates come out on the 9th of
  February and of August, where the claim has the 9th of January and of July.  On a
  host in UTC the same input yields the dates of the claim, as \<open>sortedDates_utc_spec\<close>
  shows for every bond and window from 1970 on.
\<close>

theorem sortedDates_local_month_divergence:
  "amortizationSchedule USD_STEP_UP_2030 \<noteq> [] \<and>
   sortedDates (- 10800000) USD_STEP_UP_2030 (createDate 2023 1 1) (createDate 2024 12 31) =
     Inr [createDate 2023 2 9, createDate 2023 8 9, createDate 2024 2 9, createDate 2024 7 9,
          createDate 2024 8 9] \<and>
   specScheduledDates USD_STEP_UP_2030 (createDate 2023 1 1) (createDate 2024 12 31) =
     [createDate 2023 1 9, createDate 2023 7 9, createDate 2024 1 9, createDate 2024 7 9] \<and>
   sortedDates 0 USD_STEP_UP_2030 (createDate 2023 1 1) (createDate 2024 12 31) =
     Inr (specScheduledDates USD_STEP_UP_2030 (createDate 2023 1 1) (createDate 2024 12 31))"
  by code_simp

end
